theory Spec2Isabelle
  imports Main "HOL-Library.Multiset"
begin

section \<open>Data model\<close>

text \<open>
  The three entity structs of the application. Go's \<open>int\<close> is modelled as \<open>int\<close>
  (identifiers come from the store and stay far below 64 bits), \<open>time.Time\<close> as an
  integer time stamp and \<open>[]byte\<close> as a string. Field names are shared between the
  structs as in the source, so fields are written qualified: \<open>User.ID u\<close>,
  \<open>Comment.ID c\<close>, \<open>Post.ID p\<close>.
\<close>

type_synonym time = int

record User =
  ID :: int
  AccountName :: string
  Passhash :: string
  Authority :: int
  DelFlg :: int
  CreatedAt :: time

record Comment =
  ID :: int
  PostID :: int
  UserID :: int
  Comment :: string
  CreatedAt :: time
  User :: User

record Post =
  ID :: int
  UserID :: int
  Imgdata :: string
  Body :: string
  Mime :: string
  CreatedAt :: time
  CommentCount :: int
  Comments :: "Comment list"
  User :: User
  CSRFToken :: string

text \<open>The zero value \<open>User{}\<close> that Go yields for a missing map entry.\<close>

definition zeroUser :: User where
  "zeroUser = \<lparr>User.ID = 0, AccountName = [], Passhash = [], Authority = 0, DelFlg = 0,
     User.CreatedAt = 0\<rparr>"

definition postsPerPage :: nat where
  "postsPerPage = 20"

section \<open>External collaborators\<close>

text \<open>
  A cached value is the JSON text of a user, of a comment list or of a post list. The
  codec is the standard library's; it is modelled as a tagged value, so that decoding
  what was encoded gives the value back and decoding anything else fails.
\<close>

datatype blob =
  UserJSON User
| CommentsJSON "Comment list"
| PostsJSON "Post list"
| Junk string

datatype error =
  ErrCacheMiss
| ErrTransport
| ErrStore
| ErrUnmarshal
| ErrMarshal
| ErrLastInsertId
| PanicUnmarshal
| PanicMarshal

text \<open>
  The state the program works on: the contents of the cache backend, the three tables
  of the relational store with the auto-increment counter of the comments table, and
  the number of statements sent to the store so far.
\<close>

record world =
  mc :: "string \<rightharpoonup> blob"
  users_tbl :: "User list"
  posts_tbl :: "Post list"
  comments_tbl :: "Comment list"
  next_comment_id :: int
  queries :: nat

text \<open>
  What the outside does during one operation: whether the cache backend answers reads
  and accepts writes, whether the store executes statements, whether the driver reports
  the generated id, whether \<open>json.Marshal\<close> succeeds, the value of \<open>time.Now()\<close> and the
  store's own clock (the default of the \<open>created_at\<close> columns). Two more fields stand
  for what the collaborators leave open: the keys whose items a failing multi-get had
  already read when the error occurred, and the order in which the store returns rows
  of equal creation time (rows of smaller rank first, rows of equal rank in the order
  of insertion).
\<close>

record env =
  cache_read_ok :: bool
  cache_write_ok :: bool
  db_ok :: bool
  last_id_ok :: bool
  marshal_ok :: bool
  now :: time
  db_now :: time
  delivered :: "string set"
  tie_rank :: "Comment \<Rightarrow> int"

subsection \<open>Cache backend\<close>

definition mcGet :: "env \<Rightarrow> world \<Rightarrow> string \<Rightarrow> error + blob" where
  "mcGet e w key =
     (if cache_read_ok e
      then (case mc w key of None \<Rightarrow> Inl ErrCacheMiss | Some b \<Rightarrow> Inr b)
      else Inl ErrTransport)"

text \<open>
  The multi-get returns the present keys among the requested ones. On a transport
  error it returns the error together with the items it had read before the error:
  none of them, some of them or all of them.
\<close>

definition mcGetMulti :: "env \<Rightarrow> world \<Rightarrow> string list \<Rightarrow> (string \<rightharpoonup> blob) \<times> error option" where
  "mcGetMulti e w keys =
     (if cache_read_ok e
      then ((\<lambda>k. if k \<in> set keys then mc w k else None), None)
      else ((\<lambda>k. if k \<in> set keys \<and> k \<in> delivered e then mc w k else None),
            Some ErrTransport))"

text \<open>The program ignores the result of every \<open>Set\<close> and \<open>Delete\<close>.\<close>

definition mcSet :: "env \<Rightarrow> world \<Rightarrow> string \<Rightarrow> blob \<Rightarrow> world" where
  "mcSet e w key b = (if cache_write_ok e then w\<lparr>mc := (mc w)(key \<mapsto> b)\<rparr> else w)"

definition mcDelete :: "env \<Rightarrow> world \<Rightarrow> string \<Rightarrow> world" where
  "mcDelete e w key = (if cache_write_ok e then w\<lparr>mc := (mc w)(key := None)\<rparr> else w)"

subsection \<open>JSON codec\<close>

definition marshalUser :: "env \<Rightarrow> User \<Rightarrow> error + blob" where
  "marshalUser e u = (if marshal_ok e then Inr (UserJSON u) else Inl ErrMarshal)"

definition marshalComments :: "env \<Rightarrow> Comment list \<Rightarrow> error + blob" where
  "marshalComments e cs = (if marshal_ok e then Inr (CommentsJSON cs) else Inl ErrMarshal)"

definition marshalPosts :: "env \<Rightarrow> Post list \<Rightarrow> error + blob" where
  "marshalPosts e ps = (if marshal_ok e then Inr (PostsJSON ps) else Inl ErrMarshal)"

fun unmarshalUser :: "blob \<Rightarrow> error + User" where
  "unmarshalUser (UserJSON u) = Inr u"
| "unmarshalUser _ = Inl ErrUnmarshal"

fun unmarshalComments :: "blob \<Rightarrow> error + Comment list" where
  "unmarshalComments (CommentsJSON cs) = Inr cs"
| "unmarshalComments _ = Inl ErrUnmarshal"

fun unmarshalPosts :: "blob \<Rightarrow> error + Post list" where
  "unmarshalPosts (PostsJSON ps) = Inr ps"
| "unmarshalPosts _ = Inl ErrUnmarshal"

subsection \<open>Store\<close>

text \<open>Every statement sent to the store is counted, whether it succeeds or not.\<close>

definition countQuery :: "world \<Rightarrow> world" where
  "countQuery w = w\<lparr>queries := Suc (queries w)\<rparr>"

text \<open>\<^verbatim>\<open>SELECT * FROM `users` WHERE `id` IN (?)\<close>\<close>

definition selectUsersIn :: "env \<Rightarrow> world \<Rightarrow> int list \<Rightarrow> (error + User list) \<times> world" where
  "selectUsersIn e w ids =
     (if db_ok e
      then (Inr (filter (\<lambda>u. User.ID u \<in> set ids) (users_tbl w)), countQuery w)
      else (Inl ErrStore, countQuery w))"

text \<open>
  \<^verbatim>\<open>SELECT * FROM `comments` WHERE `post_id` = ? ORDER BY `created_at`\<close>
  The rows of the post come in ascending order of creation time. The order among rows
  of equal creation time is not fixed by the query: it is the rank the environment
  gives them.
\<close>

definition commentRows :: "env \<Rightarrow> world \<Rightarrow> int \<Rightarrow> Comment list" where
  "commentRows e w pid =
     sort_key Comment.CreatedAt
       (sort_key (tie_rank e) (filter (\<lambda>c. PostID c = pid) (comments_tbl w)))"

definition selectComments :: "env \<Rightarrow> world \<Rightarrow> int \<Rightarrow> (error + Comment list) \<times> world" where
  "selectComments e w pid =
     (if db_ok e then (Inr (commentRows e w pid), countQuery w)
      else (Inl ErrStore, countQuery w))"

text \<open>
  \<^verbatim>\<open>SELECT `posts`.`id`, `user_id`, `body`, `mime`, `posts`.`created_at` FROM `posts`
  WHERE `user_id` IN (SELECT `id` FROM `users` WHERE `del_flg` = 0)
  ORDER BY `created_at` DESC LIMIT ?\<close>
  The image column is not selected, so it is empty in the rows returned.
\<close>

definition visible :: "world \<Rightarrow> Post \<Rightarrow> bool" where
  "visible w p \<longleftrightarrow> Post.UserID p \<in> User.ID ` set (filter (\<lambda>u. DelFlg u = 0) (users_tbl w))"

definition indexRows :: "world \<Rightarrow> nat \<Rightarrow> Post list" where
  "indexRows w lim =
     map (\<lambda>p. p\<lparr>Imgdata := []\<rparr>)
       (take lim (rev (sort_key Post.CreatedAt (filter (visible w) (posts_tbl w)))))"

definition selectIndexPosts :: "env \<Rightarrow> world \<Rightarrow> nat \<Rightarrow> (error + Post list) \<times> world" where
  "selectIndexPosts e w lim =
     (if db_ok e then (Inr (indexRows w lim), countQuery w)
      else (Inl ErrStore, countQuery w))"

text \<open>
  \<^verbatim>\<open>INSERT INTO `comments` (`post_id`, `user_id`, `comment`) VALUES (?,?,?)\<close>
  The store assigns the id from its counter and the creation time from its clock; the
  result carries the generated id.
\<close>

definition insertComment :: "env \<Rightarrow> world \<Rightarrow> int \<Rightarrow> int \<Rightarrow> string \<Rightarrow> (error + int) \<times> world" where
  "insertComment e w pid uid txt =
     (if db_ok e
      then (Inr (next_comment_id w),
            countQuery (w\<lparr>comments_tbl := comments_tbl w @
                [\<lparr>Comment.ID = next_comment_id w, PostID = pid, UserID = uid, Comment = txt,
                  Comment.CreatedAt = db_now e, User = zeroUser\<rparr>],
              next_comment_id := next_comment_id w + 1\<rparr>))
      else (Inl ErrStore, countQuery w))"

definition LastInsertId :: "env \<Rightarrow> int \<Rightarrow> error + int" where
  "LastInsertId e result = (if last_id_ok e then Inr result else Inl ErrLastInsertId)"

section \<open>Cache keys\<close>

text \<open>\<open>strconv.Itoa\<close>: the decimal representation, with a minus sign for negatives.\<close>

fun fmtDigits :: "nat \<Rightarrow> string" where
  "fmtDigits n =
     (if n < 10 then [''0123456789'' ! n]
      else fmtDigits (n div 10) @ [''0123456789'' ! (n mod 10)])"

definition Itoa :: "int \<Rightarrow> string" where
  "Itoa i = (if i < 0 then CHR ''-'' # fmtDigits (nat (- i)) else fmtDigits (nat i))"

definition getUserCacheKey :: "int \<Rightarrow> string" where
  "getUserCacheKey uid = ''user:'' @ Itoa uid"

definition getIndexPostsCacheKey :: string where
  "getIndexPostsCacheKey = ''indexPosts''"

definition getCommentsCacheKey :: "int \<Rightarrow> string" where
  "getCommentsCacheKey pid = ''comments:'' @ Itoa pid"

section \<open>UserCache\<close>

text \<open>
  The first loop of \<open>getUsers\<close>: every requested id whose key is among the items is
  decoded (a payload that does not decode panics), every other id is collected as a miss.
\<close>

fun splitHits ::
  "(string \<rightharpoonup> blob) \<Rightarrow> int list \<Rightarrow> (int \<rightharpoonup> User) \<Rightarrow> int list \<Rightarrow> error + (int \<rightharpoonup> User) \<times> int list" where
  "splitHits items [] users missUids = Inr (users, missUids)"
| "splitHits items (uid # uids) users missUids =
     (case items (getUserCacheKey uid) of
        Some item \<Rightarrow>
          (case unmarshalUser item of
             Inl err \<Rightarrow> Inl PanicUnmarshal
           | Inr u \<Rightarrow> splitHits items uids (users(uid \<mapsto> u)) missUids)
      | None \<Rightarrow> splitHits items uids users (missUids @ [uid]))"

text \<open>
  The second loop: every row the store returned is put in the result under its own id
  and written to the cache under its own key.
\<close>

fun storeMisses ::
  "env \<Rightarrow> world \<Rightarrow> User list \<Rightarrow> (int \<rightharpoonup> User) \<Rightarrow> (error + (int \<rightharpoonup> User)) \<times> world" where
  "storeMisses e w [] users = (Inr users, w)"
| "storeMisses e w (u # missUsers) users =
     (case marshalUser e u of
        Inl err \<Rightarrow> (Inl PanicMarshal, w)
      | Inr userMarshaled \<Rightarrow>
          storeMisses e (mcSet e w (getUserCacheKey (User.ID u)) userMarshaled) missUsers
            (users(User.ID u \<mapsto> u)))"

text \<open>
  \<open>getUsers\<close>. The error of the multi-get is only printed, and the error of the store
  query is assigned and never read: the rows of a failed query are none. The query text
  is built by \<open>sqlx.In\<close> from a non-empty list of integers, which does not fail.
\<close>

definition getUsers :: "env \<Rightarrow> world \<Rightarrow> int list \<Rightarrow> (error + (int \<rightharpoonup> User)) \<times> world" where
  "getUsers e w uids =
     (let keys = map getUserCacheKey uids;
          items = fst (mcGetMulti e w keys)
      in case splitHits items uids Map.empty [] of
           Inl err \<Rightarrow> (Inl err, w)
         | Inr (users, missUids) \<Rightarrow>
             if length missUids > 0
             then (case selectUsersIn e w missUids of
                     (res, w1) \<Rightarrow>
                       storeMisses e w1 (case res of Inl err \<Rightarrow> [] | Inr rows \<Rightarrow> rows) users)
             else (Inr users, w))"

text \<open>\<open>banUserOnCache\<close> returns nothing; the result is the panic, if any.\<close>

definition banUserOnCache :: "env \<Rightarrow> world \<Rightarrow> int \<Rightarrow> error option \<times> world" where
  "banUserOnCache e w userID =
     (let key = getUserCacheKey userID
      in case mcGet e w key of
           Inl err \<Rightarrow> (None, w)
         | Inr item \<Rightarrow>
             (case unmarshalUser item of
                Inl err \<Rightarrow> (Some PanicUnmarshal, w)
              | Inr u \<Rightarrow>
                  (case marshalUser e (u\<lparr>DelFlg := 1\<rparr>) of
                     Inl err \<Rightarrow> (Some PanicMarshal, w)
                   | Inr userMarshaled \<Rightarrow> (None, mcSet e w key userMarshaled))))"

section \<open>PostIndexCache\<close>

definition getIndexPosts :: "env \<Rightarrow> world \<Rightarrow> (error + Post list) \<times> world" where
  "getIndexPosts e w =
     (let key = getIndexPostsCacheKey
      in case mcGet e w key of
           Inr item \<Rightarrow>
             (case unmarshalPosts item of
                Inl err \<Rightarrow> (Inl PanicUnmarshal, w)
              | Inr posts \<Rightarrow> (Inr posts, w))
         | Inl miss \<Rightarrow>
             (case selectIndexPosts e w postsPerPage of
                (Inl err, w1) \<Rightarrow> (Inl err, w1)
              | (Inr posts, w1) \<Rightarrow>
                  (case marshalPosts e posts of
                     Inr postsMarshaled \<Rightarrow> (Inr posts, mcSet e w1 key postsMarshaled)
                   | Inl err \<Rightarrow> (Inr posts, w1))))"

text \<open>\<open>memcacheClient.Delete(getIndexPostsCacheKey())\<close>, as \<open>postIndex\<close> does after an upload.\<close>

definition deleteIndexPosts :: "env \<Rightarrow> world \<Rightarrow> world" where
  "deleteIndexPosts e w = mcDelete e w getIndexPostsCacheKey"

section \<open>CommentCache\<close>

definition getComments :: "env \<Rightarrow> world \<Rightarrow> int \<Rightarrow> (error + Comment list) \<times> world" where
  "getComments e w pid =
     (let key = getCommentsCacheKey pid
      in case mcGet e w key of
           Inr item \<Rightarrow>
             (case unmarshalComments item of
                Inl err \<Rightarrow> (Inl PanicUnmarshal, w)
              | Inr comments \<Rightarrow> (Inr comments, w))
         | Inl miss \<Rightarrow>
             (case selectComments e w pid of
                (Inl err, w1) \<Rightarrow> (Inl err, w1)
              | (Inr comments, w1) \<Rightarrow>
                  (case marshalComments e comments of
                     Inr commentsMarshaled \<Rightarrow> (Inr comments, mcSet e w1 key commentsMarshaled)
                   | Inl err \<Rightarrow> (Inr comments, w1))))"

text \<open>
  \<open>appendComment\<close>: the insert comes first; the cached list is read, extended by the
  comment with its generated id and written back.
\<close>

definition appendComment :: "env \<Rightarrow> world \<Rightarrow> int \<Rightarrow> User \<Rightarrow> string \<Rightarrow> error option \<times> world" where
  "appendComment e w postID user comment =
     (let c = \<lparr>Comment.ID = 0, PostID = postID, UserID = User.ID user, Comment = comment,
               Comment.CreatedAt = now e, User = user\<rparr>;
          key = getCommentsCacheKey postID
      in case insertComment e w (PostID c) (Comment.UserID c) (Comment c) of
           (Inl err, w1) \<Rightarrow> (Some err, w1)
         | (Inr result, w1) \<Rightarrow>
             (case mcGet e w1 key of
                Inl err \<Rightarrow> (None, w1)
              | Inr item \<Rightarrow>
                  (case unmarshalComments item of
                     Inl err \<Rightarrow> (Some err, w1)
                   | Inr comments \<Rightarrow>
                       (case LastInsertId e result of
                          Inl err \<Rightarrow> (Some err, w1)
                        | Inr cid \<Rightarrow>
                            (case marshalComments e (comments @ [c\<lparr>Comment.ID := cid\<rparr>]) of
                               Inl err \<Rightarrow> (Some err, w1)
                             | Inr commentsMarshaled \<Rightarrow>
                                 (None, mcSet e w1 key commentsMarshaled))))))"

section \<open>Aggregation\<close>

text \<open>
  The loop of \<open>makePosts\<close> over the candidate posts, with the posts accumulated so far.
\<close>

fun makePostsLoop ::
  "env \<Rightarrow> world \<Rightarrow> Post list \<Rightarrow> string \<Rightarrow> bool \<Rightarrow> Post list \<Rightarrow> (error + Post list) \<times> world" where
  "makePostsLoop e w [] token allComments posts = (Inr posts, w)"
| "makePostsLoop e w (p # results) token allComments posts =
     (case getComments e w (Post.ID p) of
        (Inl err, w1) \<Rightarrow> (Inl err, w1)
      | (Inr allc, w1) \<Rightarrow>
          (let count = int (length allc);
               comments = (if \<not> allComments \<and> count > 3 then take 3 allc else allc);
               uids = Post.UserID p # map Comment.UserID comments
           in case getUsers e w1 uids of
                (Inl err, w2) \<Rightarrow> (Inl err, w2)
              | (Inr users, w2) \<Rightarrow>
                  (let lookup = (\<lambda>uid. case users uid of None \<Rightarrow> zeroUser | Some u \<Rightarrow> u);
                       comments' = map (\<lambda>c. c\<lparr>Comment.User := lookup (Comment.UserID c)\<rparr>) comments;
                       p' = p\<lparr>CommentCount := count, Comments := comments',
                              Post.User := lookup (Post.UserID p), CSRFToken := token\<rparr>;
                       posts' = (if DelFlg (Post.User p') = 0 then posts @ [p'] else posts)
                   in if length posts' \<ge> postsPerPage then (Inr posts', w2)
                      else makePostsLoop e w2 results token allComments posts')))"

definition makePosts :: "env \<Rightarrow> world \<Rightarrow> Post list \<Rightarrow> string \<Rightarrow> bool \<Rightarrow> (error + Post list) \<times> world" where
  "makePosts e w results token allComments = makePostsLoop e w results token allComments []"

section \<open>Notions used in the statements\<close>

text \<open>
  The ids among \<open>uids\<close> that the multi-get found, each with the user its payload decodes
  to.
\<close>

definition cacheHits :: "(string \<rightharpoonup> blob) \<Rightarrow> int list \<Rightarrow> (int \<rightharpoonup> User)" where
  "cacheHits items uids =
     (\<lambda>uid. if uid \<in> set uids
        then (case items (getUserCacheKey uid) of Some (UserJSON u) \<Rightarrow> Some u | _ \<Rightarrow> None)
        else None)"

text \<open>Rows of the users table by id; of two rows with one id the later one counts.\<close>

definition rowsById :: "User list \<Rightarrow> (int \<rightharpoonup> User)" where
  "rowsById rows = map_of (rev (map (\<lambda>u. (User.ID u, u)) rows))"

text \<open>The state after each row has been written to the cache under its own key.\<close>

definition cacheRows :: "env \<Rightarrow> world \<Rightarrow> User list \<Rightarrow> world" where
  "cacheRows e w rows =
     foldl (\<lambda>w u. mcSet e w (getUserCacheKey (User.ID u)) (UserJSON u)) w rows"

text \<open>The requested ids without a cache entry, and the rows the store has for them.\<close>

definition missUidsOf :: "world \<Rightarrow> int list \<Rightarrow> int list" where
  "missUidsOf w uids = filter (\<lambda>uid. mc w (getUserCacheKey uid) = None) uids"

definition missRows :: "env \<Rightarrow> world \<Rightarrow> int list \<Rightarrow> User list" where
  "missRows e w uids =
     (if db_ok e then filter (\<lambda>u. User.ID u \<in> set (missUidsOf w uids)) (users_tbl w) else [])"

text \<open>A comment without the author record that \<open>makePosts\<close> fills in.\<close>

definition withoutUser :: "Comment \<Rightarrow> Comment" where
  "withoutUser c = c\<lparr>Comment.User := zeroUser\<rparr>"

text \<open>
  The \<open>n\<close> most recent comments of a list in ascending order of creation time, in the
  words of the specification of the aggregation service; \<open>makePosts\<close> does not use it.
\<close>

definition mostRecent :: "nat \<Rightarrow> Comment list \<Rightarrow> Comment list" where
  "mostRecent n cs = drop (length cs - n) cs"

text \<open>The row that the insert of \<open>appendComment\<close> adds to the comments table.\<close>

definition insertedRow :: "env \<Rightarrow> world \<Rightarrow> int \<Rightarrow> User \<Rightarrow> string \<Rightarrow> Comment" where
  "insertedRow e w postID user comment =
     \<lparr>Comment.ID = next_comment_id w, PostID = postID, UserID = User.ID user,
      Comment = comment, Comment.CreatedAt = db_now e, User = zeroUser\<rparr>"

text \<open>The comment that \<open>appendComment\<close> adds to the cached list.\<close>

definition cachedComment :: "env \<Rightarrow> world \<Rightarrow> int \<Rightarrow> User \<Rightarrow> string \<Rightarrow> Comment" where
  "cachedComment e w postID user comment =
     \<lparr>Comment.ID = next_comment_id w, PostID = postID, UserID = User.ID user,
      Comment = comment, Comment.CreatedAt = now e, User = user\<rparr>"

section \<open>Sample states\<close>

text \<open>
  An environment in which every collaborator works and the store returns rows of equal
  creation time in the order of insertion, and an empty state.
\<close>

definition env_ok :: env where
  "env_ok = \<lparr>cache_read_ok = True, cache_write_ok = True, db_ok = True, last_id_ok = True,
     marshal_ok = True, now = 100, db_now = 100, delivered = {}, tie_rank = (\<lambda>c. 0)\<rparr>"

text \<open>
  A multi-get that fails after it has read the item of user 7, and a store that returns
  rows of equal creation time in descending order of their ids.
\<close>

definition envPartial :: env where
  "envPartial = env_ok\<lparr>cache_read_ok := False, delivered := {getUserCacheKey 7}\<rparr>"

definition envTies :: env where
  "envTies = env_ok\<lparr>tie_rank := (\<lambda>c. - Comment.ID c)\<rparr>"

definition world0 :: world where
  "world0 = \<lparr>mc = Map.empty, users_tbl = [], posts_tbl = [], comments_tbl = [],
     next_comment_id = 1, queries = 0\<rparr>"

definition sampleUser :: "int \<Rightarrow> User" where
  "sampleUser i = \<lparr>User.ID = i, AccountName = ''user'' @ Itoa i, Passhash = ''x'',
     Authority = 0, DelFlg = 0, User.CreatedAt = 10\<rparr>"

definition sampleComment :: "int \<Rightarrow> int \<Rightarrow> time \<Rightarrow> Comment" where
  "sampleComment i pid t = \<lparr>Comment.ID = i, PostID = pid, UserID = 1, Comment = ''c'' @ Itoa i,
     Comment.CreatedAt = t, User = zeroUser\<rparr>"

definition samplePost :: "int \<Rightarrow> int \<Rightarrow> time \<Rightarrow> Post" where
  "samplePost i uid t = \<lparr>Post.ID = i, UserID = uid, Imgdata = [], Body = ''b'', Mime = ''image/png'',
     Post.CreatedAt = t, CommentCount = 0, Comments = [], User = zeroUser, CSRFToken = []\<rparr>"

text \<open>
  A cache holding user 7 while the users table is empty, a users table with the users
  1, 2 and 3 under an empty cache, and both together.
\<close>

definition worldStale :: world where
  "worldStale = world0\<lparr>mc := [getUserCacheKey 7 \<mapsto> UserJSON (sampleUser 7)]\<rparr>"

definition worldUsers123 :: world where
  "worldUsers123 = world0\<lparr>users_tbl := [sampleUser 1, sampleUser 2, sampleUser 3]\<rparr>"

definition worldMixed :: world where
  "worldMixed = world0\<lparr>mc := [getUserCacheKey 7 \<mapsto> UserJSON (sampleUser 7)],
     users_tbl := [sampleUser 1, sampleUser 2, sampleUser 3]\<rparr>"

text \<open>
  Two users, the second one banned, three posts, and a cached page that is out of date.
\<close>

definition worldPosts :: world where
  "worldPosts = world0\<lparr>mc := [getIndexPostsCacheKey \<mapsto> PostsJSON []],
     users_tbl := [sampleUser 1, (sampleUser 2)\<lparr>DelFlg := 1\<rparr>],
     posts_tbl := [samplePost 1 1 10, samplePost 2 2 20, samplePost 3 1 30]\<rparr>"

text \<open>
  A post whose cached list holds one comment that the store created at its time 200.
\<close>

definition worldLate :: world where
  "worldLate = world0\<lparr>mc := [getCommentsCacheKey 5 \<mapsto> CommentsJSON [sampleComment 1 5 200]],
     comments_tbl := [sampleComment 1 5 200], next_comment_id := 2\<rparr>"

text \<open>A post with one comment, in the store and in the cache.\<close>

definition worldComments :: world where
  "worldComments = world0\<lparr>mc := [getCommentsCacheKey 5 \<mapsto> CommentsJSON [sampleComment 1 5 10]],
     comments_tbl := [sampleComment 1 5 10], next_comment_id := 2\<rparr>"

text \<open>A post with four cached comments, created at the times 10, 20, 30 and 40.\<close>

definition fourComments :: "Comment list" where
  "fourComments = [sampleComment 1 5 10, sampleComment 2 5 20, sampleComment 3 5 30,
     sampleComment 4 5 40]"

definition worldFour :: world where
  "worldFour = world0\<lparr>mc := [getCommentsCacheKey 5 \<mapsto> CommentsJSON fourComments],
     users_tbl := [sampleUser 1], posts_tbl := [samplePost 5 1 50],
     comments_tbl := fourComments, next_comment_id := 5\<rparr>"

section \<open>Properties\<close>

declare fmtDigits.simps [simp del]

subsection \<open>Cache keys are distinct\<close>

text \<open>
  The decimal representation determines the number, so two ids never share a key, and
  the three key families never meet.
\<close>

lemma digit_inj:
  "a < 10 \<Longrightarrow> b < 10 \<Longrightarrow> ''0123456789'' ! a = ''0123456789'' ! b \<Longrightarrow> a = (b::nat)"
proof -
  assume "a < 10" "b < 10" "''0123456789'' ! a = ''0123456789'' ! b"
  moreover have "distinct ''0123456789''" by simp
  ultimately show ?thesis by (simp add: nth_eq_iff_index_eq)
qed

lemma digit_not_minus: "a < 10 \<Longrightarrow> ''0123456789'' ! a \<noteq> CHR ''-''"
proof -
  assume "a < 10"
  then have "''0123456789'' ! a \<in> set ''0123456789''" by (intro nth_mem) simp
  then show ?thesis by auto
qed

lemma fmtDigits_nonempty: "fmtDigits n \<noteq> []"
  by (subst fmtDigits.simps) simp

lemma fmtDigits_no_minus: "CHR ''-'' \<notin> set (fmtDigits n)"
proof (induction n rule: fmtDigits.induct)
  case (1 n)
  show ?case
  proof (cases "n < 10")
    case True
    then show ?thesis using digit_not_minus[of n] by (subst fmtDigits.simps) auto
  next
    case False
    have "n mod 10 < 10" by simp
    then show ?thesis using False 1 digit_not_minus[of "n mod 10"]
      by (subst fmtDigits.simps) auto
  qed
qed

lemma fmtDigits_inj: "fmtDigits a = fmtDigits b \<Longrightarrow> a = b"
proof (induction a arbitrary: b rule: fmtDigits.induct)
  case (1 n)
  show ?case
  proof (cases "n < 10")
    case n: True
    show ?thesis
    proof (cases "b < 10")
      case True
      then show ?thesis using n "1.prems" digit_inj[of n b]
        by (simp add: fmtDigits.simps[of n] fmtDigits.simps[of b])
    next
      case False
      then show ?thesis using n "1.prems" fmtDigits_nonempty[of "b div 10"]
        by (simp add: fmtDigits.simps[of n] fmtDigits.simps[of b])
    qed
  next
    case n: False
    show ?thesis
    proof (cases "b < 10")
      case True
      then show ?thesis using n "1.prems" fmtDigits_nonempty[of "n div 10"]
        by (simp add: fmtDigits.simps[of n] fmtDigits.simps[of b])
    next
      case False
      with n "1.prems" have eq: "fmtDigits (n div 10) = fmtDigits (b div 10)"
        and d: "''0123456789'' ! (n mod 10) = ''0123456789'' ! (b mod 10)"
        by (simp_all add: fmtDigits.simps[of n] fmtDigits.simps[of b])
      from "1.IH"[OF n eq] have "n div 10 = b div 10" .
      moreover from d have "n mod 10 = b mod 10" by (intro digit_inj) simp_all
      ultimately show ?thesis by (metis div_mult_mod_eq)
    qed
  qed
qed

lemma Itoa_inj: "Itoa a = Itoa b \<Longrightarrow> a = b"
proof -
  assume eq: "Itoa a = Itoa b"
  have hd: "\<And>n. hd (fmtDigits n) \<noteq> CHR ''-''"
    using fmtDigits_no_minus fmtDigits_nonempty by (metis hd_in_set)
  have ne: "\<And>n m. CHR ''-'' # fmtDigits n \<noteq> fmtDigits m"
    using hd by (metis list.sel(1))
  show ?thesis
  proof (cases "a < 0")
    case a: True
    show ?thesis
    proof (cases "b < 0")
      case True
      with a eq have "fmtDigits (nat (- a)) = fmtDigits (nat (- b))" by (simp add: Itoa_def)
      then have "nat (- a) = nat (- b)" by (rule fmtDigits_inj)
      with a True show ?thesis by simp
    next
      case False
      with a eq ne show ?thesis by (simp add: Itoa_def)
    qed
  next
    case a: False
    show ?thesis
    proof (cases "b < 0")
      case True
      with a eq ne[of "nat (- b)" "nat a"] show ?thesis by (simp add: Itoa_def)
    next
      case False
      with a eq have "fmtDigits (nat a) = fmtDigits (nat b)" by (simp add: Itoa_def)
      then have "nat a = nat b" by (rule fmtDigits_inj)
      with a False show ?thesis by simp
    qed
  qed
qed

lemma getUserCacheKey_inj [simp]: "getUserCacheKey a = getUserCacheKey b \<longleftrightarrow> a = b"
  by (auto simp: getUserCacheKey_def dest: Itoa_inj)

lemma getCommentsCacheKey_inj [simp]: "getCommentsCacheKey a = getCommentsCacheKey b \<longleftrightarrow> a = b"
  by (auto simp: getCommentsCacheKey_def dest: Itoa_inj)

lemma user_key_not_comments_key [simp]:
  "getUserCacheKey a \<noteq> getCommentsCacheKey b" "getCommentsCacheKey b \<noteq> getUserCacheKey a"
  by (simp_all add: getUserCacheKey_def getCommentsCacheKey_def)

lemma user_key_not_index_key [simp]:
  "getUserCacheKey a \<noteq> getIndexPostsCacheKey" "getCommentsCacheKey a \<noteq> getIndexPostsCacheKey"
  by (simp_all add: getUserCacheKey_def getCommentsCacheKey_def getIndexPostsCacheKey_def)

subsection \<open>The two loops of getUsers\<close>

lemma cacheHits_Cons_hit:
  "items (getUserCacheKey uid) = Some (UserJSON u) \<Longrightarrow>
   users(uid \<mapsto> u) ++ cacheHits items uids = users ++ cacheHits items (uid # uids)"
  by (rule ext) (auto simp: cacheHits_def map_add_def split: option.splits)

lemma cacheHits_Cons_miss:
  "items (getUserCacheKey uid) = None \<Longrightarrow> cacheHits items (uid # uids) = cacheHits items uids"
  by (rule ext) (auto simp: cacheHits_def)

lemma splitHits_decoded:
  assumes "\<forall>uid\<in>set uids. \<forall>b. items (getUserCacheKey uid) = Some b \<longrightarrow> (\<exists>u. b = UserJSON u)"
  shows "splitHits items uids users missUids =
           Inr (users ++ cacheHits items uids,
                missUids @ filter (\<lambda>uid. items (getUserCacheKey uid) = None) uids)"
  using assms
proof (induction uids arbitrary: users missUids)
  case Nil
  then show ?case by (simp add: cacheHits_def)
next
  case (Cons uid uids)
  show ?case
  proof (cases "items (getUserCacheKey uid)")
    case None
    then show ?thesis using Cons by (simp add: cacheHits_Cons_miss)
  next
    case (Some b)
    with Cons.prems obtain u where b: "b = UserJSON u" by auto
    from Cons have "splitHits items uids (users(uid \<mapsto> u)) missUids =
           Inr (users(uid \<mapsto> u) ++ cacheHits items uids,
                missUids @ filter (\<lambda>uid. items (getUserCacheKey uid) = None) uids)"
      by simp
    then show ?thesis using Some b by (simp add: cacheHits_Cons_hit)
  qed
qed

lemma splitHits_result:
  "splitHits items uids users missUids = Inl err \<Longrightarrow> err = PanicUnmarshal"
  by (induction uids arbitrary: users missUids) (auto split: option.splits sum.splits)

lemma storeMisses_marshal_ok:
  "marshal_ok e \<Longrightarrow>
   storeMisses e w rows users = (Inr (users ++ rowsById rows), cacheRows e w rows)"
proof (induction rows arbitrary: w users)
  case Nil
  then show ?case by (simp add: rowsById_def cacheRows_def)
next
  case (Cons u rows)
  have "users(User.ID u \<mapsto> u) ++ rowsById rows = users ++ rowsById (u # rows)"
    by (simp add: rowsById_def map_add_assoc[symmetric] map_add_upd)
  with Cons show ?case by (simp add: marshalUser_def cacheRows_def)
qed

lemma storeMisses_result:
  "storeMisses e w rows users = (Inl err, w') \<Longrightarrow> err = PanicMarshal"
  by (induction rows arbitrary: w users) (auto split: sum.splits)

lemma storeMisses_other_keys:
  "storeMisses e w rows users = (r, w') \<Longrightarrow> \<forall>u\<in>set rows. getUserCacheKey (User.ID u) \<noteq> k \<Longrightarrow>
   mc w' k = mc w k"
  by (induction rows arbitrary: w users) (auto simp: mcSet_def split: sum.splits if_splits)

lemma cacheRows_tables:
  "users_tbl (cacheRows e w rows) = users_tbl w \<and> posts_tbl (cacheRows e w rows) = posts_tbl w
   \<and> comments_tbl (cacheRows e w rows) = comments_tbl w
   \<and> next_comment_id (cacheRows e w rows) = next_comment_id w
   \<and> queries (cacheRows e w rows) = queries w"
  unfolding cacheRows_def
  by (induction rows arbitrary: w) (auto simp: mcSet_def)

lemma cacheRows_user_key:
  "cache_write_ok e \<Longrightarrow>
   mc (cacheRows e w rows) (getUserCacheKey uid) =
     (case rowsById rows uid of Some u \<Rightarrow> Some (UserJSON u) | None \<Rightarrow> mc w (getUserCacheKey uid))"
  unfolding cacheRows_def rowsById_def
  by (induction rows arbitrary: w) (auto simp: mcSet_def map_add_def split: option.splits)

lemma dom_rowsById: "dom (rowsById rows) = User.ID ` set rows"
  by (simp add: rowsById_def dom_map_of_conv_image_fst image_image)

lemma cacheHits_cong:
  "(\<And>uid. uid \<in> set uids \<Longrightarrow> items (getUserCacheKey uid) = items' (getUserCacheKey uid)) \<Longrightarrow>
   cacheHits items uids = cacheHits items' uids"
  by (rule ext) (simp add: cacheHits_def)

lemma getUsers_read_ok_gen:
  assumes "cache_read_ok e"
      and dec: "\<forall>uid\<in>set uids. \<forall>b. mc w (getUserCacheKey uid) = Some b \<longrightarrow> (\<exists>u. b = UserJSON u)"
  shows "getUsers e w uids =
     (if missUidsOf w uids = [] then (Inr (cacheHits (mc w) uids), w)
      else storeMisses e (countQuery w) (missRows e w uids) (cacheHits (mc w) uids))"
proof -
  let ?items = "fst (mcGetMulti e w (map getUserCacheKey uids))"
  have items: "\<And>uid. uid \<in> set uids \<Longrightarrow> ?items (getUserCacheKey uid) = mc w (getUserCacheKey uid)"
    using assms(1) by (simp add: mcGetMulti_def)
  have hits: "cacheHits ?items uids = cacheHits (mc w) uids"
    by (rule cacheHits_cong) (rule items)
  have miss: "filter (\<lambda>uid. ?items (getUserCacheKey uid) = None) uids = missUidsOf w uids"
    unfolding missUidsOf_def by (rule filter_cong) (simp_all add: items)
  have "\<forall>uid\<in>set uids. \<forall>b. ?items (getUserCacheKey uid) = Some b \<longrightarrow> (\<exists>u. b = UserJSON u)"
    using dec items by simp
  from splitHits_decoded[OF this, of Map.empty "[]"]
  have split: "splitHits ?items uids Map.empty [] = Inr (cacheHits (mc w) uids, missUidsOf w uids)"
    by (simp add: hits miss)
  show ?thesis
    using split
    by (simp add: getUsers_def Let_def selectUsersIn_def missRows_def)
qed

lemma getUsers_read_ok:
  assumes "cache_read_ok e" and "marshal_ok e"
      and dec: "\<forall>uid\<in>set uids. \<forall>b. mc w (getUserCacheKey uid) = Some b \<longrightarrow> (\<exists>u. b = UserJSON u)"
  shows "getUsers e w uids =
     (if missUidsOf w uids = [] then (Inr (cacheHits (mc w) uids), w)
      else (Inr (cacheHits (mc w) uids ++ rowsById (missRows e w uids)),
            cacheRows e (countQuery w) (missRows e w uids)))"
  using getUsers_read_ok_gen[OF assms(1) dec] assms(2)
  by (simp add: storeMisses_marshal_ok)

lemma getUsers_items:
  assumes items: "items = fst (mcGetMulti e w (map getUserCacheKey uids))"
      and miss: "missUids = filter (\<lambda>uid. items (getUserCacheKey uid) = None) uids"
      and dec: "\<forall>uid\<in>set uids. \<forall>b. items (getUserCacheKey uid) = Some b \<longrightarrow> (\<exists>u. b = UserJSON u)"
  shows "splitHits items uids Map.empty [] = Inr (cacheHits items uids, missUids)"
    and "getUsers e w uids =
     (if missUids = [] then (Inr (cacheHits items uids), w)
      else storeMisses e (countQuery w)
             (if db_ok e then filter (\<lambda>u. User.ID u \<in> set missUids) (users_tbl w) else [])
             (cacheHits items uids))"
proof -
  from splitHits_decoded[OF dec, of Map.empty "[]"]
  show split: "splitHits items uids Map.empty [] = Inr (cacheHits items uids, missUids)"
    by (simp add: miss)
  show "getUsers e w uids =
     (if missUids = [] then (Inr (cacheHits items uids), w)
      else storeMisses e (countQuery w)
             (if db_ok e then filter (\<lambda>u. User.ID u \<in> set missUids) (users_tbl w) else [])
             (cacheHits items uids))"
    using split unfolding items
    by (simp add: getUsers_def Let_def selectUsersIn_def)
qed

lemma cacheHits_dom:
  "\<forall>uid\<in>set uids. \<forall>b. items (getUserCacheKey uid) = Some b \<longrightarrow> (\<exists>u. b = UserJSON u) \<Longrightarrow>
   dom (cacheHits items uids) = {uid \<in> set uids. items (getUserCacheKey uid) \<noteq> None}"
proof -
  assume dec: "\<forall>uid\<in>set uids. \<forall>b. items (getUserCacheKey uid) = Some b \<longrightarrow> (\<exists>u. b = UserJSON u)"
  have "\<And>uid. (cacheHits items uids uid \<noteq> None) =
          (uid \<in> set uids \<and> items (getUserCacheKey uid) \<noteq> None)"
  proof -
    fix uid
    show "(cacheHits items uids uid \<noteq> None) =
          (uid \<in> set uids \<and> items (getUserCacheKey uid) \<noteq> None)"
    proof (cases "uid \<in> set uids")
      case False
      then show ?thesis by (simp add: cacheHits_def)
    next
      case True
      show ?thesis
      proof (cases "items (getUserCacheKey uid)")
        case None
        then show ?thesis by (simp add: cacheHits_def)
      next
        case (Some b)
        with dec True obtain u where "b = UserJSON u" by auto
        with Some True show ?thesis by (simp add: cacheHits_def)
      qed
    qed
  qed
  then show ?thesis by (auto simp: dom_def)
qed

lemma set_missUidsOf: "set (missUidsOf w uids) = {uid \<in> set uids. mc w (getUserCacheKey uid) = None}"
  by (auto simp: missUidsOf_def)

lemma cacheHits_None_iff:
  assumes "\<forall>uid\<in>set uids. \<forall>b. items (getUserCacheKey uid) = Some b \<longrightarrow> (\<exists>u. b = UserJSON u)"
      and "uid \<in> set uids"
  shows "(cacheHits items uids uid = None) = (items (getUserCacheKey uid) = None)"
proof -
  have "(uid \<in> dom (cacheHits items uids)) =
      (uid \<in> {uid \<in> set uids. items (getUserCacheKey uid) \<noteq> None})"
    by (simp only: cacheHits_dom[OF assms(1)])
  with assms(2) show ?thesis
    by (cases "cacheHits items uids uid"; cases "items (getUserCacheKey uid)") (auto simp: domIff)
qed

subsection \<open>Reading users\<close>

lemmas sample_env_defs = env_ok_def envPartial_def envTies_def

lemmas sample_defs = env_ok_def world0_def worldStale_def worldUsers123_def worldMixed_def

lemma sampleUser_ID [simp]: "User.ID (sampleUser i) = i"
  by (simp add: sampleUser_def)

text \<open>
  Claim C1, as amended. When the cache answers the multi-get, the store answers the
  miss query and the cached payloads of the requested ids decode, \<open>getUsers\<close> returns a
  mapping whose keys are requested ids, namely exactly the requested ids that have a
  cache entry or a row in the users table. Every entry is either the decoded cache
  payload of its id or a row of the users table with that id; an id found in neither
  place is absent, and the call returns no error.
\<close>

theorem getUsers_key_set:
  assumes "cache_read_ok e" and "db_ok e" and "marshal_ok e"
      and dec: "\<forall>uid\<in>set uids. \<forall>b. mc w (getUserCacheKey uid) = Some b \<longrightarrow> (\<exists>u. b = UserJSON u)"
  shows "\<exists>m w'. getUsers e w uids = (Inr m, w')
     \<and> dom m \<subseteq> set uids
     \<and> dom m = {uid \<in> set uids. mc w (getUserCacheKey uid) \<noteq> None
                                  \<or> uid \<in> User.ID ` set (users_tbl w)}
     \<and> (\<forall>uid u. m uid = Some u \<longrightarrow>
           mc w (getUserCacheKey uid) = Some (UserJSON u)
           \<or> (mc w (getUserCacheKey uid) = None \<and> u \<in> set (users_tbl w) \<and> User.ID u = uid))"
proof -
  let ?H = "cacheHits (mc w) uids"
  let ?R = "rowsById (missRows e w uids)"
  have domH: "dom ?H = {uid \<in> set uids. mc w (getUserCacheKey uid) \<noteq> None}"
    using dec by (rule cacheHits_dom)
  have domR: "dom ?R = {uid \<in> set uids. mc w (getUserCacheKey uid) = None
                                  \<and> uid \<in> User.ID ` set (users_tbl w)}"
    using assms(2) by (auto simp: dom_rowsById missRows_def set_missUidsOf)
  have valH: "\<And>uid u. ?H uid = Some u \<Longrightarrow> mc w (getUserCacheKey uid) = Some (UserJSON u)"
    by (auto simp: cacheHits_def split: if_splits option.splits blob.splits)
  have valR: "\<And>uid u. ?R uid = Some u \<Longrightarrow>
      mc w (getUserCacheKey uid) = None \<and> u \<in> set (users_tbl w) \<and> User.ID u = uid"
  proof -
    fix uid u assume a: "?R uid = Some u"
    then have "(uid, u) \<in> set (rev (map (\<lambda>u. (User.ID u, u)) (missRows e w uids)))"
      unfolding rowsById_def by (rule map_of_SomeD)
    then have "u \<in> set (missRows e w uids)" "User.ID u = uid" by auto
    then show "mc w (getUserCacheKey uid) = None \<and> u \<in> set (users_tbl w) \<and> User.ID u = uid"
      using assms(2) by (auto simp: missRows_def set_missUidsOf)
  qed
  have empty: "missUidsOf w uids = [] \<Longrightarrow> ?R = Map.empty"
    by (simp add: missRows_def rowsById_def)
  obtain w' where g: "getUsers e w uids = (Inr (?H ++ ?R), w')"
    using getUsers_read_ok[OF assms(1) assms(3) dec] empty by (cases "missUidsOf w uids = []") auto
  have "dom (?H ++ ?R) = {uid \<in> set uids. mc w (getUserCacheKey uid) \<noteq> None
                                  \<or> uid \<in> User.ID ` set (users_tbl w)}"
    using domH domR by auto
  moreover have "\<forall>uid u. (?H ++ ?R) uid = Some u \<longrightarrow>
           mc w (getUserCacheKey uid) = Some (UserJSON u)
           \<or> (mc w (getUserCacheKey uid) = None \<and> u \<in> set (users_tbl w) \<and> User.ID u = uid)"
    using valH valR by (auto simp: map_add_Some_iff)
  ultimately show ?thesis using g by auto
qed

text \<open>
  The claim as stated fails: a cache entry for an id that has no row in the users table
  is returned all the same.
\<close>

theorem getUsers_key_set_counterexample:
  "fst (getUsers env_ok worldStale [7]) = Inr [7 \<mapsto> sampleUser 7]
   \<and> 7 \<notin> User.ID ` set (users_tbl worldStale)"
  by (simp add: getUsers_def mcGetMulti_def Let_def sample_defs)

theorem getUsers_key_set_witness:
  "\<exists>m w'. getUsers env_ok worldMixed [1, 7, 4] = (Inr m, w') \<and> dom m = {1, 7}"
proof -
  have h1: "cache_read_ok env_ok" and h2: "db_ok env_ok" and h3: "marshal_ok env_ok"
    by (simp_all add: env_ok_def)
  have h4: "\<forall>uid\<in>set [1, 7, 4]. \<forall>b. mc worldMixed (getUserCacheKey uid) = Some b \<longrightarrow>
      (\<exists>u. b = UserJSON u)"
    by (simp add: sample_defs)
  have "{uid \<in> set [1, 7, 4]. mc worldMixed (getUserCacheKey uid) \<noteq> None
            \<or> uid \<in> User.ID ` set (users_tbl worldMixed)} = {1, 7}"
    by (auto simp: sample_defs)
  with getUsers_key_set [OF h1 h2 h3 h4] show ?thesis
    by auto
qed

text \<open>
  Claim C2, as amended. When cache and store work during the first call and the cache
  answers the multi-get of the second, two calls of \<open>getUsers\<close> in a row with the same
  ids return the same mapping. The second call sends no statement to the store if every
  requested id is in the result; otherwise it sends one more query, for the ids that
  are absent from both cache and store, and changes nothing else.
\<close>

theorem getUsers_twice:
  assumes e1: "cache_read_ok e1" "cache_write_ok e1" "db_ok e1" "marshal_ok e1"
      and e2: "cache_read_ok e2"
      and dec: "\<forall>uid\<in>set uids. \<forall>b. mc w (getUserCacheKey uid) = Some b \<longrightarrow> (\<exists>u. b = UserJSON u)"
  shows "\<exists>m w1. getUsers e1 w uids = (Inr m, w1)
     \<and> getUsers e2 w1 uids = (Inr m, if set uids \<subseteq> dom m then w1 else countQuery w1)"
proof -
  let ?H = "cacheHits (mc w) uids"
  let ?rows = "missRows e1 w uids"
  let ?R = "rowsById ?rows"
  let ?m = "?H ++ ?R"
  define w1 where "w1 = (if missUidsOf w uids = [] then w else cacheRows e1 (countQuery w) ?rows)"
  have rows_empty: "missUidsOf w uids = [] \<Longrightarrow> ?rows = []"
    by (simp add: missRows_def)
  have first: "getUsers e1 w uids = (Inr ?m, w1)"
    using getUsers_read_ok[OF e1(1) e1(4) dec] rows_empty
    by (cases "missUidsOf w uids = []") (simp_all add: rowsById_def w1_def)
  have tbl: "users_tbl w1 = users_tbl w"
    by (simp add: cacheRows_tables countQuery_def w1_def)
  have key: "\<And>uid. mc w1 (getUserCacheKey uid) =
      (case ?R uid of Some u \<Rightarrow> Some (UserJSON u) | None \<Rightarrow> mc w (getUserCacheKey uid))"
  proof -
    fix uid
    show "mc w1 (getUserCacheKey uid) =
      (case ?R uid of Some u \<Rightarrow> Some (UserJSON u) | None \<Rightarrow> mc w (getUserCacheKey uid))"
    proof (cases "missUidsOf w uids = []")
      case True
      then show ?thesis by (simp add: rows_empty rowsById_def w1_def)
    next
      case False
      have "mc (countQuery w) = mc w" by (simp add: countQuery_def)
      with False show ?thesis using cacheRows_user_key[OF e1(2), of "countQuery w" ?rows uid]
        by (simp add: w1_def split: option.splits)
    qed
  qed
  have domR: "dom ?R \<subseteq> set uids"
    by (auto simp: dom_rowsById missRows_def set_missUidsOf split: if_splits)
  have dec1: "\<forall>uid\<in>set uids. \<forall>b. mc w1 (getUserCacheKey uid) = Some b \<longrightarrow> (\<exists>u. b = UserJSON u)"
  proof (intro ballI allI impI)
    fix uid b assume uid: "uid \<in> set uids" and b: "mc w1 (getUserCacheKey uid) = Some b"
    show "\<exists>u. b = UserJSON u"
    proof (cases "?R uid")
      case None
      with b key[of uid] have "mc w (getUserCacheKey uid) = Some b" by simp
      with dec uid show ?thesis by blast
    next
      case (Some u)
      with b key[of uid] show ?thesis by auto
    qed
  qed
  have hits1: "cacheHits (mc w1) uids = ?m"
  proof (rule ext)
    fix uid
    show "cacheHits (mc w1) uids uid = ?m uid"
    proof (cases "uid \<in> set uids")
      case False
      with domR have "?R uid = None" by blast
      with False show ?thesis by (simp add: cacheHits_def map_add_def)
    next
      case True
      show ?thesis
      proof (cases "?R uid")
        case None
        have "cacheHits (mc w1) uids uid =
            (case mc w1 (getUserCacheKey uid) of Some (UserJSON u) \<Rightarrow> Some u | _ \<Rightarrow> None)"
          using True by (simp add: cacheHits_def)
        also have "\<dots> = (case mc w (getUserCacheKey uid) of Some (UserJSON u) \<Rightarrow> Some u | _ \<Rightarrow> None)"
          using None by (simp only: key) simp
        also have "\<dots> = ?H uid"
          using True by (simp add: cacheHits_def)
        finally show ?thesis using None by (simp add: map_add_def)
      next
        case (Some u)
        have "cacheHits (mc w1) uids uid =
            (case mc w1 (getUserCacheKey uid) of Some (UserJSON u) \<Rightarrow> Some u | _ \<Rightarrow> None)"
          using True by (simp add: cacheHits_def)
        also have "\<dots> = Some u"
          using Some by (simp only: key) simp
        finally show ?thesis using Some by (simp add: map_add_def)
      qed
    qed
  qed
  have absent: "\<And>uid. uid \<in> set uids \<Longrightarrow>
      (mc w1 (getUserCacheKey uid) = None) = (uid \<notin> dom ?m)"
  proof -
    fix uid assume uid: "uid \<in> set uids"
    have "(?H uid = None) = (mc w (getUserCacheKey uid) = None)"
      using dec uid by (rule cacheHits_None_iff)
    then show "(mc w1 (getUserCacheKey uid) = None) = (uid \<notin> dom ?m)"
      by (cases "?R uid") (simp_all add: key map_add_def dom_def)
  qed
  have miss1: "set (missUidsOf w1 uids) = {uid \<in> set uids. uid \<notin> dom ?m}"
    unfolding set_missUidsOf using absent by (intro Collect_cong) auto
  have rows1: "missRows e2 w1 uids = []"
  proof -
    have "\<And>u. u \<in> set (users_tbl w) \<Longrightarrow> User.ID u \<notin> set (missUidsOf w1 uids)"
    proof
      fix u assume u: "u \<in> set (users_tbl w)" and "User.ID u \<in> set (missUidsOf w1 uids)"
      then have in_uids: "User.ID u \<in> set uids" and out: "User.ID u \<notin> dom ?m"
        unfolding miss1 by auto
      from out have "?H (User.ID u) = None" and noR: "User.ID u \<notin> dom ?R"
        by (auto simp: map_add_def dom_def split: option.splits)
      then have "mc w (getUserCacheKey (User.ID u)) = None"
        using cacheHits_None_iff[OF dec in_uids] by simp
      with in_uids have "User.ID u \<in> set (missUidsOf w uids)"
        by (simp add: set_missUidsOf)
      with u e1(3) have "u \<in> set ?rows"
        by (simp add: missRows_def)
      then have "User.ID u \<in> dom ?R"
        by (simp add: dom_rowsById)
      with noR show False by contradiction
    qed
    then have "filter (\<lambda>u. User.ID u \<in> set (missUidsOf w1 uids)) (users_tbl w) = []"
      by (simp only: filter_empty_conv) blast
    then show ?thesis
      by (simp add: missRows_def tbl)
  qed
  have empty_iff: "(missUidsOf w1 uids = []) = (set uids \<subseteq> dom ?m)"
  proof -
    have "(missUidsOf w1 uids = []) = (set (missUidsOf w1 uids) = {})" by simp
    also have "\<dots> = (set uids \<subseteq> dom ?m)" unfolding miss1 by auto
    finally show ?thesis .
  qed
  have second: "getUsers e2 w1 uids = (Inr ?m, if set uids \<subseteq> dom ?m then w1 else countQuery w1)"
    unfolding getUsers_read_ok_gen[OF e2 dec1] rows1 hits1 empty_iff by simp
  show ?thesis
    by (rule exI[of _ ?m], rule exI[of _ w1]) (simp only: first second)
qed

text \<open>
  The claim as stated fails when a requested id exists nowhere: with the users 1, 2, 3
  in the store and the ids 1, 2, 4 requested, the second call queries the store again.
\<close>

theorem getUsers_twice_counterexample:
  "queries (snd (getUsers env_ok worldUsers123 [1, 2, 4])) = 1
   \<and> queries (snd (getUsers env_ok (snd (getUsers env_ok worldUsers123 [1, 2, 4])) [1, 2, 4])) = 2"
  by (simp add: getUsers_def mcGetMulti_def selectUsersIn_def marshalUser_def mcSet_def
      countQuery_def Let_def sample_defs)

theorem getUsers_twice_witness:
  "getUsers env_ok (snd (getUsers env_ok worldUsers123 [1, 2, 4])) [1, 2, 4] =
     (Inr [1 \<mapsto> sampleUser 1, 2 \<mapsto> sampleUser 2],
      countQuery (snd (getUsers env_ok worldUsers123 [1, 2, 4])))
   \<and> getUsers env_ok (snd (getUsers env_ok worldUsers123 [1, 2])) [1, 2] =
     (Inr [1 \<mapsto> sampleUser 1, 2 \<mapsto> sampleUser 2],
      snd (getUsers env_ok worldUsers123 [1, 2]))"
proof -
  have h: "cache_read_ok env_ok" "cache_write_ok env_ok" "db_ok env_ok" "marshal_ok env_ok"
    by (simp_all add: env_ok_def)
  have d: "\<And>uids. \<forall>uid\<in>set uids. \<forall>b. mc worldUsers123 (getUserCacheKey uid) = Some b \<longrightarrow>
      (\<exists>u. b = UserJSON u)"
    by (simp add: sample_defs)
  have a: "fst (getUsers env_ok worldUsers123 [1, 2, 4]) = Inr [1 \<mapsto> sampleUser 1, 2 \<mapsto> sampleUser 2]"
    by (simp add: getUsers_def mcGetMulti_def selectUsersIn_def marshalUser_def Let_def sample_defs)
  have b: "fst (getUsers env_ok worldUsers123 [1, 2]) = Inr [1 \<mapsto> sampleUser 1, 2 \<mapsto> sampleUser 2]"
    by (simp add: getUsers_def mcGetMulti_def selectUsersIn_def marshalUser_def Let_def sample_defs)
  from getUsers_twice [OF h(1) h(2) h(3) h(4) h(1) d, of "[1, 2, 4]"] a
  have 1: "getUsers env_ok (snd (getUsers env_ok worldUsers123 [1, 2, 4])) [1, 2, 4] =
     (Inr [1 \<mapsto> sampleUser 1, 2 \<mapsto> sampleUser 2],
      countQuery (snd (getUsers env_ok worldUsers123 [1, 2, 4])))"
    by auto
  from getUsers_twice [OF h(1) h(2) h(3) h(4) h(1) d, of "[1, 2]"] b
  have 2: "getUsers env_ok (snd (getUsers env_ok worldUsers123 [1, 2])) [1, 2] =
     (Inr [1 \<mapsto> sampleUser 1, 2 \<mapsto> sampleUser 2],
      snd (getUsers env_ok worldUsers123 [1, 2]))"
    by auto
  from 1 2 show ?thesis by (rule conjI)
qed

text \<open>
  Claim C6, as amended. When the multi-get fails, \<open>getUsers\<close> returns no error. The items
  the failed call had read are taken as hits; every other requested id is collected as
  a miss, one query fetches the misses from the store, and the result holds the hits and
  the rows found. When the failed call had read nothing, every requested id is a miss and
  the result holds the rows of all requested ids.
\<close>

theorem getUsers_multiget_error:
  assumes "\<not> cache_read_ok e" and "db_ok e" and "marshal_ok e"
      and items: "items = fst (mcGetMulti e w (map getUserCacheKey uids))"
      and miss: "missUids = filter (\<lambda>uid. items (getUserCacheKey uid) = None) uids"
      and dec: "\<forall>uid\<in>set uids. \<forall>b. items (getUserCacheKey uid) = Some b \<longrightarrow> (\<exists>u. b = UserJSON u)"
  shows "\<exists>w'. getUsers e w uids =
            (Inr (cacheHits items uids ++
                  rowsById (filter (\<lambda>u. User.ID u \<in> set missUids) (users_tbl w))), w')
     \<and> splitHits items uids Map.empty [] = Inr (cacheHits items uids, missUids)
     \<and> set missUids = {uid \<in> set uids. getUserCacheKey uid \<notin> delivered e
                                        \<or> mc w (getUserCacheKey uid) = None}
     \<and> queries w' = (if missUids = [] then queries w else Suc (queries w))
     \<and> (delivered e = {} \<longrightarrow>
          missUids = uids
          \<and> getUsers e w uids =
              (Inr (rowsById (filter (\<lambda>u. User.ID u \<in> set uids) (users_tbl w))), w'))"
proof -
  let ?rows = "filter (\<lambda>u. User.ID u \<in> set missUids) (users_tbl w)"
  let ?w' = "if missUids = [] then w else cacheRows e (countQuery w) ?rows"
  have at: "\<And>uid. uid \<in> set uids \<Longrightarrow> items (getUserCacheKey uid) =
      (if getUserCacheKey uid \<in> delivered e then mc w (getUserCacheKey uid) else None)"
    using assms(1) by (simp add: items mcGetMulti_def)
  have rows_empty: "missUids = [] \<Longrightarrow> ?rows = []"
    by simp
  have run: "getUsers e w uids = (Inr (cacheHits items uids ++ rowsById ?rows), ?w')"
    using getUsers_items(2)[OF items miss dec] assms(2,3) rows_empty
    by (cases "missUids = []") (simp_all add: storeMisses_marshal_ok rowsById_def)
  have split: "splitHits items uids Map.empty [] = Inr (cacheHits items uids, missUids)"
    by (rule getUsers_items(1)[OF items miss dec])
  have mset: "set missUids = {uid \<in> set uids. getUserCacheKey uid \<notin> delivered e
                                        \<or> mc w (getUserCacheKey uid) = None}"
    unfolding miss using at by auto
  have q: "queries ?w' = (if missUids = [] then queries w else Suc (queries w))"
    by (simp add: cacheRows_tables countQuery_def)
  have none: "delivered e = {} \<longrightarrow>
          missUids = uids
          \<and> getUsers e w uids =
              (Inr (rowsById (filter (\<lambda>u. User.ID u \<in> set uids) (users_tbl w))), ?w')"
  proof
    assume d: "delivered e = {}"
    with at have "\<And>uid. uid \<in> set uids \<Longrightarrow> items (getUserCacheKey uid) = None"
      by simp
    then have all: "missUids = uids"
      unfolding miss by (simp add: filter_id_conv)
    from d at have "cacheHits items uids = Map.empty"
      by (intro ext) (simp add: cacheHits_def)
    with run all show "missUids = uids
          \<and> getUsers e w uids =
              (Inr (rowsById (filter (\<lambda>u. User.ID u \<in> set uids) (users_tbl w))), ?w')"
      by simp
  qed
  show ?thesis
    by (rule exI[of _ ?w'], intro conjI) (fact run, fact split, fact mset, fact q, fact none)
qed

text \<open>
  The claim as stated fails when the failed multi-get had read an item: with user 7 in
  the cache only and the users 1, 2, 3 in the store, the ids 1, 7, 4 are requested and
  the item of user 7 arrives before the error. User 7 is a hit and is returned; the
  misses are 1 and 4 only.
\<close>

theorem getUsers_multiget_error_counterexample:
  "splitHits (fst (mcGetMulti envPartial worldMixed (map getUserCacheKey [1, 7, 4]))) [1, 7, 4]
      Map.empty [] = Inr ([7 \<mapsto> sampleUser 7], [1, 4])
   \<and> fst (getUsers envPartial worldMixed [1, 7, 4]) = Inr [7 \<mapsto> sampleUser 7, 1 \<mapsto> sampleUser 1]"
  by (simp add: getUsers_def mcGetMulti_def selectUsersIn_def marshalUser_def Let_def
      sample_defs sample_env_defs)

theorem getUsers_multiget_error_witness:
  "fst (getUsers envPartial worldMixed [1, 7, 4]) = Inr [7 \<mapsto> sampleUser 7, 1 \<mapsto> sampleUser 1]
   \<and> queries (snd (getUsers envPartial worldMixed [1, 7, 4])) = 1
   \<and> fst (getUsers (env_ok\<lparr>cache_read_ok := False\<rparr>) worldMixed [1, 7, 4]) = Inr [1 \<mapsto> sampleUser 1]"
proof -
  let ?items = "fst (mcGetMulti envPartial worldMixed (map getUserCacheKey [1, 7, 4]))"
  let ?miss = "filter (\<lambda>uid. ?items (getUserCacheKey uid) = None) [1, 7, 4]"
  have h1: "\<not> cache_read_ok envPartial" and h2: "db_ok envPartial" and h3: "marshal_ok envPartial"
    by (simp_all add: sample_env_defs)
  have miss: "?miss = [1, 4]"
    by (simp add: mcGetMulti_def sample_defs sample_env_defs)
  have dec: "\<forall>uid\<in>set [1, 7, 4]. \<forall>b. ?items (getUserCacheKey uid) = Some b \<longrightarrow> (\<exists>u. b = UserJSON u)"
    by (simp add: mcGetMulti_def sample_defs sample_env_defs)
  have hits: "cacheHits ?items [1, 7, 4] = [7 \<mapsto> sampleUser 7]"
    by (rule ext) (simp add: cacheHits_def mcGetMulti_def sample_defs sample_env_defs)
  have rows: "rowsById (filter (\<lambda>u. User.ID u \<in> set [1, 4]) (users_tbl worldMixed)) = [1 \<mapsto> sampleUser 1]"
    by (simp add: rowsById_def sample_defs)
  have q: "queries worldMixed = 0"
    by (simp add: sample_defs)
  from getUsers_multiget_error [OF h1 h2 h3 refl refl dec]
  obtain w' where
    "getUsers envPartial worldMixed [1, 7, 4] =
       (Inr (cacheHits ?items [1, 7, 4] ++
             rowsById (filter (\<lambda>u. User.ID u \<in> set ?miss) (users_tbl worldMixed))), w')"
    "queries w' = (if ?miss = [] then queries worldMixed else Suc (queries worldMixed))"
    by (elim exE conjE) (rule that; assumption)
  then have 1: "fst (getUsers envPartial worldMixed [1, 7, 4]) = Inr [7 \<mapsto> sampleUser 7, 1 \<mapsto> sampleUser 1]"
    and 2: "queries (snd (getUsers envPartial worldMixed [1, 7, 4])) = 1"
    unfolding miss hits rows q by simp_all
  let ?e = "env_ok\<lparr>cache_read_ok := False\<rparr>"
  let ?items0 = "fst (mcGetMulti ?e worldMixed (map getUserCacheKey [1, 7, 4]))"
  have g1: "\<not> cache_read_ok ?e" and g2: "db_ok ?e" and g3: "marshal_ok ?e"
    and g4: "delivered ?e = {}"
    by (simp_all add: sample_env_defs)
  have dec0: "\<forall>uid\<in>set [1, 7, 4]. \<forall>b. ?items0 (getUserCacheKey uid) = Some b \<longrightarrow> (\<exists>u. b = UserJSON u)"
    by (simp add: mcGetMulti_def sample_defs sample_env_defs)
  have rows0: "rowsById (filter (\<lambda>u. User.ID u \<in> set [1, 7, 4]) (users_tbl worldMixed)) = [1 \<mapsto> sampleUser 1]"
    by (simp add: rowsById_def sample_defs)
  let ?miss0 = "filter (\<lambda>uid. ?items0 (getUserCacheKey uid) = None) [1, 7, 4]"
  from getUsers_multiget_error [OF g1 g2 g3 refl refl dec0]
  obtain v' where imp: "delivered ?e = {} \<longrightarrow>
      ?miss0 = [1, 7, 4]
      \<and> getUsers ?e worldMixed [1, 7, 4] =
       (Inr (rowsById (filter (\<lambda>u. User.ID u \<in> set [1, 7, 4]) (users_tbl worldMixed))), v')"
    by (elim exE conjE) (rule that; assumption)
  from imp[rule_format, OF g4, THEN conjunct2]
  have 3: "fst (getUsers ?e worldMixed [1, 7, 4]) = Inr [1 \<mapsto> sampleUser 1]"
    unfolding rows0 by simp
  from 1 2 3 show ?thesis
    by (intro conjI)
qed

text \<open>
  The only errors of \<open>getUsers\<close> are the two panics: an error of the store never reaches
  its caller.
\<close>

lemma getUsers_error_is_panic:
  assumes "getUsers e w uids = (Inl err, w')"
  shows "err = PanicUnmarshal \<or> err = PanicMarshal"
proof (cases "splitHits (fst (mcGetMulti e w (map getUserCacheKey uids))) uids Map.empty []")
  case (Inl a)
  with assms splitHits_result[OF Inl] show ?thesis
    by (simp add: getUsers_def Let_def)
next
  case (Inr b)
  obtain users missUids where b: "b = (users, missUids)"
    by (cases b)
  show ?thesis
  proof (cases "missUids = []")
    case True
    with assms Inr b show ?thesis
      by (simp add: getUsers_def Let_def)
  next
    case False
    obtain res w1 where s: "selectUsersIn e w missUids = (res, w1)"
      by (cases "selectUsersIn e w missUids")
    with assms Inr b False
    have "storeMisses e w1 (case res of Inl err \<Rightarrow> [] | Inr rows \<Rightarrow> rows) users = (Inl err, w')"
      by (simp add: getUsers_def Let_def)
    from storeMisses_result[OF this] show ?thesis
      by simp
  qed
qed

text \<open>
  Claim C5 at a failing input. With user 1 in the users table, an empty cache and a
  store that fails, \<open>getUsers\<close> returns an empty mapping and no error, while
  \<open>getComments\<close> and \<open>getIndexPosts\<close> return the error of the store.
\<close>

theorem getUsers_swallows_store_error:
  "getUsers (env_ok\<lparr>db_ok := False\<rparr>) worldUsers123 [1] = (Inr Map.empty, countQuery worldUsers123)
   \<and> fst (getComments (env_ok\<lparr>db_ok := False\<rparr>) worldUsers123 1) = Inl ErrStore
   \<and> fst (getIndexPosts (env_ok\<lparr>db_ok := False\<rparr>) worldUsers123) = Inl ErrStore"
  by (simp add: getUsers_def mcGetMulti_def selectUsersIn_def getComments_def getIndexPosts_def
      selectComments_def selectIndexPosts_def mcGet_def Let_def sample_defs)

subsection \<open>Banning a user in the cache\<close>

text \<open>
  Claim C8. Without a cache entry for the user, \<open>banUserOnCache\<close> changes nothing. With
  an entry that decodes, it overwrites the entry by the same user with \<open>DelFlg = 1\<close>, all
  other fields and all other keys as before. The tables of the store, the id counter
  and the number of statements sent to the store are the same after every call.
\<close>

theorem banUserOnCache_frame:
  "(mc w (getUserCacheKey userID) = None \<longrightarrow> banUserOnCache e w userID = (None, w))
   \<and> (cache_read_ok e \<and> mc w (getUserCacheKey userID) = Some (UserJSON u)
        \<and> marshal_ok e \<and> cache_write_ok e \<longrightarrow>
        (\<exists>u' w'. banUserOnCache e w userID = (None, w')
          \<and> mc w' = (mc w)(getUserCacheKey userID \<mapsto> UserJSON u')
          \<and> DelFlg u' = 1
          \<and> User.ID u' = User.ID u \<and> AccountName u' = AccountName u
          \<and> Passhash u' = Passhash u \<and> Authority u' = Authority u
          \<and> User.CreatedAt u' = User.CreatedAt u))
   \<and> users_tbl (snd (banUserOnCache e w userID)) = users_tbl w
   \<and> posts_tbl (snd (banUserOnCache e w userID)) = posts_tbl w
   \<and> comments_tbl (snd (banUserOnCache e w userID)) = comments_tbl w
   \<and> next_comment_id (snd (banUserOnCache e w userID)) = next_comment_id w
   \<and> queries (snd (banUserOnCache e w userID)) = queries w"
  by (auto simp: banUserOnCache_def mcGet_def marshalUser_def mcSet_def Let_def
      split: sum.splits option.splits)

theorem banUserOnCache_frame_witness:
  "banUserOnCache env_ok worldUsers123 1 = (None, worldUsers123)
   \<and> fst (banUserOnCache env_ok worldMixed 7) = None
   \<and> mc (snd (banUserOnCache env_ok worldMixed 7)) (getUserCacheKey 7) =
       Some (UserJSON ((sampleUser 7)\<lparr>DelFlg := 1\<rparr>))
   \<and> users_tbl (snd (banUserOnCache env_ok worldMixed 7)) = [sampleUser 1, sampleUser 2, sampleUser 3]"
proof -
  have a: "mc worldUsers123 (getUserCacheKey 1) = None"
    by (simp add: sample_defs)
  have b: "cache_read_ok env_ok \<and> mc worldMixed (getUserCacheKey 7) = Some (UserJSON (sampleUser 7))
        \<and> marshal_ok env_ok \<and> cache_write_ok env_ok"
    by (simp add: sample_defs)
  have c: "users_tbl worldMixed = [sampleUser 1, sampleUser 2, sampleUser 3]"
    by (simp add: sample_defs)
  have d: "mc (snd (banUserOnCache env_ok worldMixed 7)) (getUserCacheKey 7) =
       Some (UserJSON ((sampleUser 7)\<lparr>DelFlg := 1\<rparr>))"
    by (simp add: banUserOnCache_def mcGet_def marshalUser_def mcSet_def Let_def sample_defs)
  from banUserOnCache_frame [of worldUsers123 1 env_ok] a
  have 1: "banUserOnCache env_ok worldUsers123 1 = (None, worldUsers123)"
    by simp
  from banUserOnCache_frame [of worldMixed 7 env_ok "sampleUser 7"] b
  have 2: "fst (banUserOnCache env_ok worldMixed 7) = None"
    and 3: "users_tbl (snd (banUserOnCache env_ok worldMixed 7)) = users_tbl worldMixed"
    by auto
  from 1 2 3 c d show ?thesis
    by simp
qed

subsection \<open>The recent-posts query\<close>

lemma indexRows_length: "length (indexRows w lim) \<le> lim"
  by (simp add: indexRows_def)

lemma indexRows_desc: "sorted_wrt (\<lambda>p q. Post.CreatedAt q \<le> Post.CreatedAt p) (indexRows w lim)"
proof -
  let ?ys = "sort_key Post.CreatedAt (filter (visible w) (posts_tbl w))"
  have "sorted (map Post.CreatedAt ?ys)"
    by (rule sorted_sort_key)
  then have "sorted_wrt (\<lambda>p q. Post.CreatedAt p \<le> Post.CreatedAt q) ?ys"
    by (simp add: sorted_map)
  then have "sorted_wrt (\<lambda>p q. Post.CreatedAt q \<le> Post.CreatedAt p) (rev ?ys)"
    by (simp add: sorted_wrt_rev)
  then have "sorted_wrt (\<lambda>p q. Post.CreatedAt q \<le> Post.CreatedAt p) (take lim (rev ?ys))"
    by (rule sorted_wrt_take)
  then show ?thesis
    by (simp add: indexRows_def sorted_wrt_map)
qed

lemma indexRows_visible:
  assumes "p \<in> set (indexRows w lim)"
  shows "\<exists>q\<in>set (posts_tbl w). visible w q \<and> p = q\<lparr>Imgdata := []\<rparr>"
proof -
  from assms obtain q where q: "q \<in> set (take lim (rev (sort_key Post.CreatedAt (filter (visible w) (posts_tbl w)))))"
    and p: "p = q\<lparr>Imgdata := []\<rparr>"
    by (auto simp: indexRows_def)
  from q have "q \<in> set (rev (sort_key Post.CreatedAt (filter (visible w) (posts_tbl w))))"
    by (rule in_set_takeD)
  then have "q \<in> set (posts_tbl w)" "visible w q" by auto
  with p show ?thesis by auto
qed

lemma indexRows_most_recent:
  assumes "q \<in> set (posts_tbl w)" and "visible w q"
      and "q\<lparr>Imgdata := []\<rparr> \<notin> set (indexRows w lim)"
      and "p \<in> set (indexRows w lim)"
  shows "Post.CreatedAt q \<le> Post.CreatedAt p"
proof -
  let ?ys = "rev (sort_key Post.CreatedAt (filter (visible w) (posts_tbl w)))"
  have "sorted (map Post.CreatedAt (sort_key Post.CreatedAt (filter (visible w) (posts_tbl w))))"
    by (rule sorted_sort_key)
  then have "sorted_wrt (\<lambda>p q. Post.CreatedAt q \<le> Post.CreatedAt p) ?ys"
    by (simp add: sorted_map sorted_wrt_rev)
  then have "sorted_wrt (\<lambda>p q. Post.CreatedAt q \<le> Post.CreatedAt p) (take lim ?ys @ drop lim ?ys)"
    by simp
  then have order: "\<forall>a\<in>set (take lim ?ys). \<forall>b\<in>set (drop lim ?ys). Post.CreatedAt b \<le> Post.CreatedAt a"
    unfolding sorted_wrt_append by blast
  from assms(1,2) have "q \<in> set ?ys" by simp
  then have "q \<in> set (take lim ?ys) \<or> q \<in> set (drop lim ?ys)"
    by (metis Un_iff append_take_drop_id set_append)
  moreover have "q \<notin> set (take lim ?ys)"
    using assms(3) by (auto simp: indexRows_def)
  ultimately have qd: "q \<in> set (drop lim ?ys)" by blast
  from assms(4) obtain p0 where p0: "p0 \<in> set (take lim ?ys)" and p: "p = p0\<lparr>Imgdata := []\<rparr>"
    by (auto simp: indexRows_def)
  from order p0 qd have "Post.CreatedAt q \<le> Post.CreatedAt p0" by blast
  with p show ?thesis by simp
qed

text \<open>
  Claim C9. After the key of the page has been deleted, \<open>getIndexPosts\<close> sends one query
  to the store, returns its rows and leaves them in the cache under that key; a second
  call returns the same rows from the cache and sends no query. The rows are at most 20
  posts of the posts table (without the image column) whose authors are users with
  \<open>del_flg = 0\<close>, in descending order of creation time, and no post of such an author
  that was left out is newer than one that was returned.
\<close>

theorem getIndexPosts_after_invalidate:
  assumes "cache_write_ok e0"
      and "cache_write_ok e1" and "db_ok e1" and "marshal_ok e1"
      and "cache_read_ok e2"
  shows "\<exists>w1. getIndexPosts e1 (deleteIndexPosts e0 w) = (Inr (indexRows w postsPerPage), w1)
     \<and> mc w1 getIndexPostsCacheKey = Some (PostsJSON (indexRows w postsPerPage))
     \<and> queries w1 = Suc (queries w)
     \<and> getIndexPosts e2 w1 = (Inr (indexRows w postsPerPage), w1)
     \<and> length (indexRows w postsPerPage) \<le> 20
     \<and> sorted_wrt (\<lambda>p q. Post.CreatedAt q \<le> Post.CreatedAt p) (indexRows w postsPerPage)
     \<and> (\<forall>p\<in>set (indexRows w postsPerPage).
           \<exists>q\<in>set (posts_tbl w). p = q\<lparr>Imgdata := []\<rparr>
             \<and> (\<exists>u\<in>set (users_tbl w). User.ID u = Post.UserID q \<and> DelFlg u = 0))
     \<and> (\<forall>q\<in>set (posts_tbl w). \<forall>p\<in>set (indexRows w postsPerPage).
           visible w q \<and> q\<lparr>Imgdata := []\<rparr> \<notin> set (indexRows w postsPerPage) \<longrightarrow>
           Post.CreatedAt q \<le> Post.CreatedAt p)"
proof -
  let ?w0 = "deleteIndexPosts e0 w"
  let ?rows = "indexRows w postsPerPage"
  let ?w1 = "mcSet e1 (countQuery ?w0) getIndexPostsCacheKey (PostsJSON ?rows)"
  have miss: "\<exists>err. mcGet e1 ?w0 getIndexPostsCacheKey = Inl err"
    using assms(1) by (simp add: deleteIndexPosts_def mcDelete_def mcGet_def)
  have "visible ?w0 = visible w"
    by (rule ext) (simp add: deleteIndexPosts_def mcDelete_def visible_def)
  then have rows0: "indexRows ?w0 postsPerPage = ?rows"
    by (simp add: indexRows_def) (simp add: deleteIndexPosts_def mcDelete_def)
  have first: "getIndexPosts e1 ?w0 = (Inr ?rows, ?w1)"
    using miss assms(3,4) rows0
    by (auto simp: getIndexPosts_def selectIndexPosts_def marshalPosts_def Let_def)
  have entry: "mc ?w1 getIndexPostsCacheKey = Some (PostsJSON ?rows)"
    using assms(2) by (simp add: mcSet_def countQuery_def)
  have q: "queries ?w1 = Suc (queries w)"
    by (simp add: mcSet_def countQuery_def deleteIndexPosts_def mcDelete_def)
  have second: "getIndexPosts e2 ?w1 = (Inr ?rows, ?w1)"
    using assms(5) entry by (simp add: getIndexPosts_def mcGet_def Let_def)
  have len: "length ?rows \<le> 20"
    using indexRows_length[of w postsPerPage] by (simp add: postsPerPage_def)
  have authors: "\<forall>p\<in>set ?rows.
           \<exists>q\<in>set (posts_tbl w). p = q\<lparr>Imgdata := []\<rparr>
             \<and> (\<exists>u\<in>set (users_tbl w). User.ID u = Post.UserID q \<and> DelFlg u = 0)"
  proof
    fix p assume "p \<in> set ?rows"
    from indexRows_visible[OF this] obtain q where q: "q \<in> set (posts_tbl w)" "visible w q"
      "p = q\<lparr>Imgdata := []\<rparr>" by blast
    from q(2) obtain u where "u \<in> set (users_tbl w)" "User.ID u = Post.UserID q" "DelFlg u = 0"
      by (auto simp: visible_def)
    with q show "\<exists>q\<in>set (posts_tbl w). p = q\<lparr>Imgdata := []\<rparr>
             \<and> (\<exists>u\<in>set (users_tbl w). User.ID u = Post.UserID q \<and> DelFlg u = 0)"
      by blast
  qed
  have recent: "\<forall>q\<in>set (posts_tbl w). \<forall>p\<in>set ?rows.
           visible w q \<and> q\<lparr>Imgdata := []\<rparr> \<notin> set ?rows \<longrightarrow> Post.CreatedAt q \<le> Post.CreatedAt p"
    using indexRows_most_recent by blast
  from first entry q second len indexRows_desc authors recent show ?thesis
    by blast
qed

theorem getIndexPosts_after_invalidate_witness:
  "fst (getIndexPosts env_ok (deleteIndexPosts env_ok worldPosts)) =
     Inr [samplePost 3 1 30, samplePost 1 1 10]
   \<and> queries (snd (getIndexPosts env_ok (deleteIndexPosts env_ok worldPosts))) = 1
   \<and> getIndexPosts env_ok (snd (getIndexPosts env_ok (deleteIndexPosts env_ok worldPosts))) =
       (Inr [samplePost 3 1 30, samplePost 1 1 10],
        snd (getIndexPosts env_ok (deleteIndexPosts env_ok worldPosts)))"
proof -
  have h: "cache_write_ok env_ok" "db_ok env_ok" "marshal_ok env_ok" "cache_read_ok env_ok"
    by (simp_all add: env_ok_def)
  have rows: "indexRows worldPosts postsPerPage = [samplePost 3 1 30, samplePost 1 1 10]"
    by (simp add: indexRows_def visible_def worldPosts_def world0_def samplePost_def
        sampleUser_def postsPerPage_def)
  have q: "queries worldPosts = 0"
    by (simp add: worldPosts_def world0_def)
  from getIndexPosts_after_invalidate [OF h(1) h(1) h(2) h(3) h(4), of worldPosts]
  obtain w1 where
    1: "getIndexPosts env_ok (deleteIndexPosts env_ok worldPosts) =
          (Inr (indexRows worldPosts postsPerPage), w1)"
    and 2: "queries w1 = Suc (queries worldPosts)"
    and 3: "getIndexPosts env_ok w1 = (Inr (indexRows worldPosts postsPerPage), w1)"
    by (elim exE conjE) (rule that; assumption)
  from 1 2 3 show ?thesis
    by (simp add: rows q)
qed

subsection \<open>Appending a comment\<close>

lemma commentRows_sorted: "sorted (map Comment.CreatedAt (commentRows e w pid))"
  unfolding commentRows_def by (rule sorted_sort_key)

lemma set_commentRows:
  "set (commentRows e w pid) = {c \<in> set (comments_tbl w). PostID c = pid}"
  by (auto simp: commentRows_def)

lemma length_commentRows:
  "length (commentRows e w pid) = length (filter (\<lambda>c. PostID c = pid) (comments_tbl w))"
  by (simp add: commentRows_def)

lemma sort_twice_snoc:
  fixes f :: "'a \<Rightarrow> int" and g :: "'a \<Rightarrow> int"
  assumes less: "\<forall>x\<in>set xs. f x < f r"
  shows "sort_key f (sort_key g (xs @ [r])) = sort_key f (sort_key g xs) @ [r]"
proof (rule properties_for_sort_key)
  show "mset (sort_key f (sort_key g xs) @ [r]) = mset (sort_key g (xs @ [r]))"
    by simp
  show "sorted (map f (sort_key f (sort_key g xs) @ [r]))"
    using less by (auto simp: sorted_append less_imp_le)
  fix k assume k: "k \<in> set (sort_key f (sort_key g xs) @ [r])"
  define P where "P = (\<lambda>x. f k = f x)"
  have right: "filter P (sort_key g (xs @ [r])) = sort_key g (filter P xs @ filter P [r])"
    by (simp only: filter_sort filter_append)
  have stable: "filter P (sort_key f (sort_key g xs)) = filter P (sort_key g xs)"
    using sort_key_stable[of f "f k" "sort_key g xs"] by (simp add: P_def eq_commute)
  have "filter P (sort_key f (sort_key g xs) @ [r]) = filter P (sort_key g (xs @ [r]))"
  proof (cases "P r")
    case True
    with less have none: "filter P xs = []"
      by (auto simp: filter_empty_conv P_def)
    then have "filter P (sort_key g xs) = []"
      by (simp add: filter_sort)
    with True none show ?thesis
      by (simp add: right stable)
  next
    case False
    then have r: "filter P [r] = []"
      by simp
    have "filter P (sort_key g xs) = sort_key g (filter P xs)"
      by (rule filter_sort)
    then show ?thesis
      by (simp only: filter_append stable right r append_Nil2)
  qed
  then show "filter (\<lambda>x. f k = f x) (sort_key f (sort_key g xs) @ [r]) =
      filter (\<lambda>x. f k = f x) (sort_key g (xs @ [r]))"
    by (simp only: P_def)
qed

lemma commentRows_strict_snoc:
  assumes "comments_tbl w' = comments_tbl w @ [r]" and "PostID r = pid"
      and "\<forall>c\<in>set (commentRows e w pid). Comment.CreatedAt c < Comment.CreatedAt r"
  shows "commentRows e w' pid = commentRows e w pid @ [r]"
proof -
  have "\<forall>c\<in>set (filter (\<lambda>c. PostID c = pid) (comments_tbl w)).
          Comment.CreatedAt c < Comment.CreatedAt r"
    using assms(3) by (simp add: commentRows_def)
  from sort_twice_snoc[OF this, of "tie_rank e"] show ?thesis
    using assms(1,2) by (simp add: commentRows_def)
qed

lemma getComments_hit:
  assumes "cache_read_ok e" and "mc w (getCommentsCacheKey pid) = Some (CommentsJSON cs)"
  shows "getComments e w pid = (Inr cs, w)"
  using assms by (simp add: getComments_def mcGet_def Let_def)

lemma getComments_miss:
  assumes "db_ok e" and "mc w (getCommentsCacheKey pid) = None"
  shows "fst (getComments e w pid) = Inr (commentRows e w pid)"
  using assms
  by (simp add: getComments_def mcGet_def selectComments_def marshalComments_def Let_def)

lemma getComments_hit_decodes:
  assumes "getComments e w pid = (Inr cs, w')" and "mc w (getCommentsCacheKey pid) = Some b"
      and "cache_read_ok e"
  shows "b = CommentsJSON cs"
  using assms
  by (cases b) (simp_all add: getComments_def mcGet_def Let_def)

lemma appendComment_hit:
  assumes "db_ok e" and "cache_read_ok e" and "cache_write_ok e" and "last_id_ok e"
      and "marshal_ok e"
      and "mc w (getCommentsCacheKey pid) = Some (CommentsJSON cs)"
  shows "\<exists>w'. appendComment e w pid u t = (None, w')
     \<and> mc w' (getCommentsCacheKey pid) = Some (CommentsJSON (cs @ [cachedComment e w pid u t]))
     \<and> comments_tbl w' = comments_tbl w @ [insertedRow e w pid u t]
     \<and> next_comment_id w' = next_comment_id w + 1"
  using assms
  by (simp add: appendComment_def insertComment_def mcGet_def countQuery_def LastInsertId_def
      marshalComments_def mcSet_def Let_def insertedRow_def cachedComment_def)

lemma appendComment_miss:
  assumes "db_ok e" and "mc w (getCommentsCacheKey pid) = None"
  shows "\<exists>w'. appendComment e w pid u t = (None, w')
     \<and> mc w' = mc w
     \<and> comments_tbl w' = comments_tbl w @ [insertedRow e w pid u t]
     \<and> next_comment_id w' = next_comment_id w + 1"
  using assms
  by (simp add: appendComment_def insertComment_def mcGet_def countQuery_def Let_def
      insertedRow_def)

lemma insertedRow_sel [simp]:
  "Comment.ID (insertedRow e w pid u t) = next_comment_id w"
  "PostID (insertedRow e w pid u t) = pid"
  "Comment.UserID (insertedRow e w pid u t) = User.ID u"
  "Comment (insertedRow e w pid u t) = t"
  "Comment.CreatedAt (insertedRow e w pid u t) = db_now e"
  by (simp_all add: insertedRow_def)

lemma cachedComment_sel [simp]:
  "Comment.ID (cachedComment e w pid u t) = next_comment_id w"
  "PostID (cachedComment e w pid u t) = pid"
  "Comment.UserID (cachedComment e w pid u t) = User.ID u"
  "Comment (cachedComment e w pid u t) = t"
  "Comment.CreatedAt (cachedComment e w pid u t) = now e"
  by (simp_all add: cachedComment_def)

text \<open>
  Claim C7, as amended. Let \<open>pre\<close> be the list \<open>getComments\<close> returns for a post. After
  three calls of \<open>appendComment\<close> for that post, one after another and with every
  collaborator working, \<open>getComments\<close> returns the comments of \<open>pre\<close> and the three new
  ones, which carry the three consecutive ids the store generated.
  \<^item> When the list of the post is cached, each call puts its comment at the end of the
    cached list: the result is \<open>pre\<close> followed by the three comments in the order of the
    calls. It is in ascending order of creation time if \<open>pre\<close> is, no comment of \<open>pre\<close>
    is newer than the first value of \<open>time.Now()\<close>, and these values do not decrease
    from call to call.
  \<^item> When the list is not cached, the result is read from the store and is in ascending
    order of creation time. It is \<open>pre\<close> followed by the three comments in the order of
    the calls if the creation times the store assigns are later than those of \<open>pre\<close> and
    increase from call to call; the order among comments of equal creation time is the
    store's.
\<close>

theorem appendComment_keeps_order:
  assumes ok1: "db_ok e1 \<and> cache_read_ok e1 \<and> cache_write_ok e1 \<and> last_id_ok e1 \<and> marshal_ok e1"
      and ok2: "db_ok e2 \<and> cache_read_ok e2 \<and> cache_write_ok e2 \<and> last_id_ok e2 \<and> marshal_ok e2"
      and ok3: "db_ok e3 \<and> cache_read_ok e3 \<and> cache_write_ok e3 \<and> last_id_ok e3 \<and> marshal_ok e3"
      and ok4: "db_ok e4 \<and> cache_read_ok e4"
      and before: "getComments e4 w pid = (Inr pre, w0)"
  shows "\<exists>w1 w2 w3 w4 post c1 c2 c3.
       appendComment e1 w pid u1 t1 = (None, w1)
     \<and> appendComment e2 w1 pid u2 t2 = (None, w2)
     \<and> appendComment e3 w2 pid u3 t3 = (None, w3)
     \<and> getComments e4 w3 pid = (Inr post, w4)
     \<and> map Comment.ID [c1, c2, c3] =
         [next_comment_id w, next_comment_id w + 1, next_comment_id w + 2]
     \<and> map Comment [c1, c2, c3] = [t1, t2, t3]
     \<and> map Comment.UserID [c1, c2, c3] = [User.ID u1, User.ID u2, User.ID u3]
     \<and> map PostID [c1, c2, c3] = [pid, pid, pid]
     \<and> set post = set pre \<union> {c1, c2, c3}
     \<and> length post = length pre + 3
     \<and> (mc w (getCommentsCacheKey pid) \<noteq> None \<longrightarrow> post = pre @ [c1, c2, c3])
     \<and> (mc w (getCommentsCacheKey pid) \<noteq> None
          \<and> sorted (map Comment.CreatedAt pre)
          \<and> (\<forall>c\<in>set pre. Comment.CreatedAt c \<le> now e1)
          \<and> now e1 \<le> now e2 \<and> now e2 \<le> now e3 \<longrightarrow>
          sorted (map Comment.CreatedAt post))
     \<and> (mc w (getCommentsCacheKey pid) = None \<longrightarrow> sorted (map Comment.CreatedAt post))
     \<and> (mc w (getCommentsCacheKey pid) = None
          \<and> (\<forall>c\<in>set pre. Comment.CreatedAt c < db_now e1)
          \<and> db_now e1 < db_now e2 \<and> db_now e2 < db_now e3 \<longrightarrow>
          post = pre @ [c1, c2, c3])"
proof (cases "mc w (getCommentsCacheKey pid)")
  case (Some b)
  from getComments_hit_decodes[OF before Some] ok4 have b: "b = CommentsJSON pre"
    by simp
  let ?c1 = "cachedComment e1 w pid u1 t1"
  from appendComment_hit[of e1 w pid pre u1 t1] ok1 Some b
  obtain w1 where a1: "appendComment e1 w pid u1 t1 = (None, w1)"
    and m1: "mc w1 (getCommentsCacheKey pid) = Some (CommentsJSON (pre @ [?c1]))"
    and n1: "next_comment_id w1 = next_comment_id w + 1"
    by auto
  let ?c2 = "cachedComment e2 w1 pid u2 t2"
  from appendComment_hit[of e2 w1 pid "pre @ [?c1]" u2 t2] ok2 m1
  obtain w2 where a2: "appendComment e2 w1 pid u2 t2 = (None, w2)"
    and m2: "mc w2 (getCommentsCacheKey pid) = Some (CommentsJSON (pre @ [?c1, ?c2]))"
    and n2: "next_comment_id w2 = next_comment_id w1 + 1"
    by auto
  let ?c3 = "cachedComment e3 w2 pid u3 t3"
  from appendComment_hit[of e3 w2 pid "pre @ [?c1, ?c2]" u3 t3] ok3 m2
  obtain w3 where a3: "appendComment e3 w2 pid u3 t3 = (None, w3)"
    and m3: "mc w3 (getCommentsCacheKey pid) = Some (CommentsJSON (pre @ [?c1, ?c2, ?c3]))"
    by auto
  let ?post = "pre @ [?c1, ?c2, ?c3]"
  from getComments_hit[OF _ m3, of e4] ok4
  have g: "getComments e4 w3 pid = (Inr ?post, w3)"
    by simp
  have s: "sorted (map Comment.CreatedAt pre)
          \<and> (\<forall>c\<in>set pre. Comment.CreatedAt c \<le> now e1)
          \<and> now e1 \<le> now e2 \<and> now e2 \<le> now e3 \<longrightarrow>
          sorted (map Comment.CreatedAt ?post)"
    by (auto simp: sorted_append)
  have ids: "map Comment.ID [?c1, ?c2, ?c3] =
         [next_comment_id w, next_comment_id w + 1, next_comment_id w + 2]"
    by (simp add: n1 n2)
  have st: "set ?post = set pre \<union> {?c1, ?c2, ?c3}" and ln: "length ?post = length pre + 3"
    by auto
  show ?thesis
    apply (rule exI[of _ w1], rule exI[of _ w2], rule exI[of _ w3], rule exI[of _ w3])
    apply (rule exI[of _ ?post])
    apply (rule exI[of _ ?c1], rule exI[of _ ?c2], rule exI[of _ ?c3])
    using a1 a2 a3 g ids s st ln Some by simp
next
  case None
  from getComments_miss[of e4 w pid] ok4 None before have pre: "pre = commentRows e4 w pid"
    by simp
  let ?r1 = "insertedRow e1 w pid u1 t1"
  from appendComment_miss[of e1 w pid u1 t1] ok1 None
  obtain w1 where a1: "appendComment e1 w pid u1 t1 = (None, w1)"
    and m1: "mc w1 = mc w"
    and t1: "comments_tbl w1 = comments_tbl w @ [?r1]"
    and n1: "next_comment_id w1 = next_comment_id w + 1"
    by auto
  let ?r2 = "insertedRow e2 w1 pid u2 t2"
  from appendComment_miss[of e2 w1 pid u2 t2] ok2 None m1
  obtain w2 where a2: "appendComment e2 w1 pid u2 t2 = (None, w2)"
    and m2: "mc w2 = mc w"
    and t2: "comments_tbl w2 = comments_tbl w1 @ [?r2]"
    and n2: "next_comment_id w2 = next_comment_id w1 + 1"
    by auto
  let ?r3 = "insertedRow e3 w2 pid u3 t3"
  from appendComment_miss[of e3 w2 pid u3 t3] ok3 None m2
  obtain w3 where a3: "appendComment e3 w2 pid u3 t3 = (None, w3)"
    and m3: "mc w3 = mc w"
    and t3: "comments_tbl w3 = comments_tbl w2 @ [?r3]"
    by auto
  let ?post = "commentRows e4 w3 pid"
  from getComments_miss[of e4 w3 pid] ok4 None m3
  have "fst (getComments e4 w3 pid) = Inr ?post"
    by simp
  then have g: "getComments e4 w3 pid = (Inr ?post, snd (getComments e4 w3 pid))"
    by (metis prod.collapse)
  have st: "set ?post = set pre \<union> {?r1, ?r2, ?r3}"
    by (auto simp: pre set_commentRows t1 t2 t3)
  have ln: "length ?post = length pre + 3"
    by (simp add: pre length_commentRows t1 t2 t3)
  have s: "sorted (map Comment.CreatedAt ?post)"
    by (rule commentRows_sorted)
  have strict: "(\<forall>c\<in>set pre. Comment.CreatedAt c < db_now e1)
          \<and> db_now e1 < db_now e2 \<and> db_now e2 < db_now e3 \<longrightarrow>
          ?post = pre @ [?r1, ?r2, ?r3]"
  proof
    assume h: "(\<forall>c\<in>set pre. Comment.CreatedAt c < db_now e1)
          \<and> db_now e1 < db_now e2 \<and> db_now e2 < db_now e3"
    then have r1: "commentRows e4 w1 pid = pre @ [?r1]"
      by (simp add: pre commentRows_strict_snoc[OF t1])
    have "\<forall>c\<in>set (commentRows e4 w1 pid). Comment.CreatedAt c < Comment.CreatedAt ?r2"
      using h by (auto simp: r1)
    then have r2: "commentRows e4 w2 pid = pre @ [?r1, ?r2]"
      by (simp add: r1 commentRows_strict_snoc[OF t2])
    have "\<forall>c\<in>set (commentRows e4 w2 pid). Comment.CreatedAt c < Comment.CreatedAt ?r3"
      using h by (auto simp: r2)
    then show "?post = pre @ [?r1, ?r2, ?r3]"
      by (simp add: r2 commentRows_strict_snoc[OF t3])
  qed
  have ids: "map Comment.ID [?r1, ?r2, ?r3] =
         [next_comment_id w, next_comment_id w + 1, next_comment_id w + 2]"
    by (simp add: n1 n2)
  show ?thesis
    apply (rule exI[of _ w1], rule exI[of _ w2], rule exI[of _ w3])
    apply (rule exI[of _ "snd (getComments e4 w3 pid)"])
    apply (rule exI[of _ ?post])
    apply (rule exI[of _ ?r1], rule exI[of _ ?r2], rule exI[of _ ?r3])
    using a1 a2 a3 g ids s st ln strict None by simp
qed

text \<open>
  The claim as stated fails in two ways, with every collaborator working. A cached
  comment that the store created at its time 200, followed by an append at the
  application's time 150 (the store's clock, which is ahead, shows 250), gives a list
  that is not in ascending order of creation time.
  And three appends within one tick of the store's clock, for a post whose list is not
  cached, come back in the order \<open>c\<close>, \<open>b\<close>, \<open>a\<close> from a store that returns rows of equal
  creation time in descending order of their ids.
\<close>

theorem appendComment_keeps_order_counterexample:
  "map_sum id (map Comment.CreatedAt)
     (fst (getComments env_ok
        (snd (appendComment (env_ok\<lparr>now := 150, db_now := 250\<rparr>) worldLate 5 (sampleUser 1) ''a''))
        5)) =
     Inr [200, 150]
   \<and> map_sum id (map Comment)
     (fst (getComments envTies
        (snd (appendComment env_ok
          (snd (appendComment env_ok
            (snd (appendComment env_ok world0 5 (sampleUser 1) ''a''))
            5 (sampleUser 2) ''b''))
          5 (sampleUser 3) ''c''))
        5)) = Inr [''c'', ''b'', ''a'']"
  by (simp add: appendComment_def insertComment_def getComments_def selectComments_def
      commentRows_def mcGet_def mcSet_def countQuery_def LastInsertId_def marshalComments_def
      Let_def sample_env_defs world0_def worldLate_def sampleComment_def)

theorem appendComment_keeps_order_witness:
  "map_sum id (map Comment.ID)
     (fst (getComments env_ok
        (snd (appendComment env_ok
          (snd (appendComment env_ok
            (snd (appendComment env_ok worldComments 5 (sampleUser 1) ''a''))
            5 (sampleUser 2) ''b''))
          5 (sampleUser 3) ''c''))
        5)) = Inr [1, 2, 3, 4]
   \<and> map_sum id (map Comment)
     (fst (getComments env_ok
        (snd (appendComment (env_ok\<lparr>db_now := 102\<rparr>)
          (snd (appendComment (env_ok\<lparr>db_now := 101\<rparr>)
            (snd (appendComment env_ok world0 5 (sampleUser 1) ''a''))
            5 (sampleUser 2) ''b''))
          5 (sampleUser 3) ''c''))
        5)) = Inr [''a'', ''b'', ''c'']"
proof -
  let ?e2 = "env_ok\<lparr>db_now := 101\<rparr>"
  let ?e3 = "env_ok\<lparr>db_now := 102\<rparr>"
  have ok: "db_ok env_ok \<and> cache_read_ok env_ok \<and> cache_write_ok env_ok \<and> last_id_ok env_ok
      \<and> marshal_ok env_ok"
    and ok2: "db_ok ?e2 \<and> cache_read_ok ?e2 \<and> cache_write_ok ?e2 \<and> last_id_ok ?e2 \<and> marshal_ok ?e2"
    and ok3: "db_ok ?e3 \<and> cache_read_ok ?e3 \<and> cache_write_ok ?e3 \<and> last_id_ok ?e3 \<and> marshal_ok ?e3"
    and ok4: "db_ok env_ok \<and> cache_read_ok env_ok"
    by (simp_all add: env_ok_def)
  have b1: "getComments env_ok worldComments 5 = (Inr [sampleComment 1 5 10], worldComments)"
    by (simp add: getComments_def mcGet_def Let_def worldComments_def world0_def env_ok_def)
  have c1: "mc worldComments (getCommentsCacheKey 5) \<noteq> None"
    by (simp add: worldComments_def world0_def)
  have n1: "next_comment_id worldComments = 2" and s1: "Comment.ID (sampleComment 1 5 10) = 1"
    by (simp_all add: worldComments_def world0_def sampleComment_def)
  from appendComment_keeps_order [OF ok ok ok ok4 b1,
      of "sampleUser 1" "''a''" "sampleUser 2" "''b''" "sampleUser 3" "''c''"]
  obtain w1 w2 w3 w4 post c1 c2 c3 where
    "appendComment env_ok worldComments 5 (sampleUser 1) ''a'' = (None, w1)"
    "appendComment env_ok w1 5 (sampleUser 2) ''b'' = (None, w2)"
    "appendComment env_ok w2 5 (sampleUser 3) ''c'' = (None, w3)"
    "getComments env_ok w3 5 = (Inr post, w4)"
    "map Comment.ID [c1, c2, c3] =
         [next_comment_id worldComments, next_comment_id worldComments + 1,
          next_comment_id worldComments + 2]"
    "mc worldComments (getCommentsCacheKey 5) \<noteq> None \<longrightarrow>
       post = [sampleComment 1 5 10] @ [c1, c2, c3]"
    by (elim exE conjE) (rule that; assumption)
  with c1 have first: "map_sum id (map Comment.ID)
     (fst (getComments env_ok
        (snd (appendComment env_ok
          (snd (appendComment env_ok
            (snd (appendComment env_ok worldComments 5 (sampleUser 1) ''a''))
            5 (sampleUser 2) ''b''))
          5 (sampleUser 3) ''c''))
        5)) = Inr [1, 2, 3, 4]"
    by (simp add: n1 s1)
  have b2: "getComments env_ok world0 5 = (Inr [], snd (getComments env_ok world0 5))"
    by (simp add: getComments_def mcGet_def selectComments_def commentRows_def Let_def
        marshalComments_def world0_def env_ok_def)
  have c2: "mc world0 (getCommentsCacheKey 5) = None
          \<and> (\<forall>c\<in>set []. Comment.CreatedAt c < db_now env_ok)
          \<and> db_now env_ok < db_now ?e2 \<and> db_now ?e2 < db_now ?e3"
    by (simp add: world0_def env_ok_def)
  from appendComment_keeps_order [OF ok ok2 ok3 ok4 b2,
      of "sampleUser 1" "''a''" "sampleUser 2" "''b''" "sampleUser 3" "''c''"]
  have second: "map_sum id (map Comment)
     (fst (getComments env_ok
        (snd (appendComment ?e3
          (snd (appendComment ?e2
            (snd (appendComment env_ok world0 5 (sampleUser 1) ''a''))
            5 (sampleUser 2) ''b''))
          5 (sampleUser 3) ''c''))
        5)) = Inr [''a'', ''b'', ''c'']"
    using c2 by (elim exE conjE) simp
  from first second show ?thesis
    by (rule conjI)
qed

text \<open>
  Claim C4. When the cache holds no entry for the post and the store executes the
  insert, \<open>appendComment\<close> returns no error, the comments table has the new row at its
  end, and the cache is left as it was: the entry of the post is still absent.
\<close>

theorem appendComment_absent_entry:
  assumes "mc w (getCommentsCacheKey postID) = None" and "db_ok e"
  shows "\<exists>w'. appendComment e w postID user comment = (None, w')
     \<and> comments_tbl w' = comments_tbl w @ [insertedRow e w postID user comment]
     \<and> mc w' = mc w
     \<and> mc w' (getCommentsCacheKey postID) = None"
  using assms
  by (simp add: appendComment_def insertComment_def mcGet_def countQuery_def Let_def
      insertedRow_def)

theorem appendComment_absent_entry_witness:
  "mc world0 (getCommentsCacheKey 5) = None \<and> db_ok env_ok
   \<and> fst (appendComment env_ok world0 5 (sampleUser 1) ''hi'') = None
   \<and> comments_tbl (snd (appendComment env_ok world0 5 (sampleUser 1) ''hi'')) =
       [\<lparr>Comment.ID = 1, PostID = 5, UserID = 1, Comment = ''hi'', Comment.CreatedAt = 100,
         User = zeroUser\<rparr>]
   \<and> mc (snd (appendComment env_ok world0 5 (sampleUser 1) ''hi'')) (getCommentsCacheKey 5) = None"
proof -
  have h1: "mc world0 (getCommentsCacheKey 5) = None"
    by (simp add: world0_def)
  have h2: "db_ok env_ok"
    by (simp add: env_ok_def)
  from appendComment_absent_entry [OF h1 h2, of "sampleUser 1" "''hi''"]
  show ?thesis
    using h1 h2
    by (auto simp: insertedRow_def world0_def env_ok_def sampleUser_def)
qed

text \<open>
  Claim C10. The insert is the first step of \<open>appendComment\<close>. Whenever the function
  returns an error of a later step (the cached list does not decode, the generated id
  cannot be read, the extended list does not encode), the row is in the comments table
  all the same, and the cache is unchanged.
\<close>

theorem appendComment_error_after_insert:
  assumes "appendComment e w postID user comment = (Some err, w')"
      and "err \<in> {ErrUnmarshal, ErrLastInsertId, ErrMarshal}"
  shows "comments_tbl w' = comments_tbl w @ [insertedRow e w postID user comment]
     \<and> mc w' = mc w"
  using assms
  by (auto simp: appendComment_def insertComment_def mcGet_def countQuery_def LastInsertId_def
       marshalComments_def mcSet_def Let_def insertedRow_def
      split: if_splits sum.splits option.splits prod.splits)

theorem appendComment_error_after_insert_witness:
  "fst (appendComment env_ok (world0\<lparr>mc := [getCommentsCacheKey 5 \<mapsto> Junk ''{'']\<rparr>) 5
          (sampleUser 1) ''hi'') = Some ErrUnmarshal
   \<and> comments_tbl (snd (appendComment env_ok (world0\<lparr>mc := [getCommentsCacheKey 5 \<mapsto> Junk ''{'']\<rparr>) 5
          (sampleUser 1) ''hi'')) =
       [\<lparr>Comment.ID = 1, PostID = 5, UserID = 1, Comment = ''hi'', Comment.CreatedAt = 100,
         User = zeroUser\<rparr>]
   \<and> fst (appendComment (env_ok\<lparr>last_id_ok := False\<rparr>) worldComments 5 (sampleUser 1) ''hi'') =
       Some ErrLastInsertId
   \<and> comments_tbl (snd (appendComment (env_ok\<lparr>last_id_ok := False\<rparr>) worldComments 5
          (sampleUser 1) ''hi'')) =
       [sampleComment 1 5 10,
        \<lparr>Comment.ID = 2, PostID = 5, UserID = 1, Comment = ''hi'', Comment.CreatedAt = 100,
         User = zeroUser\<rparr>]
   \<and> fst (appendComment (env_ok\<lparr>marshal_ok := False\<rparr>) worldComments 5 (sampleUser 1) ''hi'') =
       Some ErrMarshal
   \<and> comments_tbl (snd (appendComment (env_ok\<lparr>marshal_ok := False\<rparr>) worldComments 5
          (sampleUser 1) ''hi'')) =
       [sampleComment 1 5 10,
        \<lparr>Comment.ID = 2, PostID = 5, UserID = 1, Comment = ''hi'', Comment.CreatedAt = 100,
         User = zeroUser\<rparr>]"
proof -
  let ?w = "world0\<lparr>mc := [getCommentsCacheKey 5 \<mapsto> Junk ''{'']\<rparr>"
  let ?r1 = "appendComment env_ok ?w 5 (sampleUser 1) ''hi''"
  let ?r2 = "appendComment (env_ok\<lparr>last_id_ok := False\<rparr>) worldComments 5 (sampleUser 1) ''hi''"
  let ?r3 = "appendComment (env_ok\<lparr>marshal_ok := False\<rparr>) worldComments 5 (sampleUser 1) ''hi''"
  have f1: "fst ?r1 = Some ErrUnmarshal"
    by (simp add: appendComment_def insertComment_def mcGet_def countQuery_def Let_def
        env_ok_def world0_def)
  have f2: "fst ?r2 = Some ErrLastInsertId"
    by (simp add: appendComment_def insertComment_def mcGet_def countQuery_def Let_def
        LastInsertId_def env_ok_def world0_def worldComments_def)
  have f3: "fst ?r3 = Some ErrMarshal"
    by (simp add: appendComment_def insertComment_def mcGet_def countQuery_def Let_def
        LastInsertId_def marshalComments_def env_ok_def world0_def worldComments_def)
  have h1: "?r1 = (Some ErrUnmarshal, snd ?r1)"
    using f1 by (metis prod.collapse)
  have h2: "?r2 = (Some ErrLastInsertId, snd ?r2)"
    using f2 by (metis prod.collapse)
  have h3: "?r3 = (Some ErrMarshal, snd ?r3)"
    using f3 by (metis prod.collapse)
  have t1: "comments_tbl (snd ?r1) =
       [\<lparr>Comment.ID = 1, PostID = 5, UserID = 1, Comment = ''hi'', Comment.CreatedAt = 100,
         User = zeroUser\<rparr>]"
    using appendComment_error_after_insert [OF h1]
    by (simp add: insertedRow_def world0_def env_ok_def sampleUser_def)
  have t2: "comments_tbl (snd ?r2) =
       [sampleComment 1 5 10,
        \<lparr>Comment.ID = 2, PostID = 5, UserID = 1, Comment = ''hi'', Comment.CreatedAt = 100,
         User = zeroUser\<rparr>]"
    using appendComment_error_after_insert [OF h2]
    by (simp add: insertedRow_def world0_def worldComments_def env_ok_def sampleUser_def)
  have t3: "comments_tbl (snd ?r3) =
       [sampleComment 1 5 10,
        \<lparr>Comment.ID = 2, PostID = 5, UserID = 1, Comment = ''hi'', Comment.CreatedAt = 100,
         User = zeroUser\<rparr>]"
    using appendComment_error_after_insert [OF h3]
    by (simp add: insertedRow_def world0_def worldComments_def env_ok_def sampleUser_def)
  from f1 t1 f2 t2 f3 t3 show ?thesis
    by (intro conjI)
qed

subsection \<open>Assembling posts\<close>

lemma getComments_keeps_entries:
  assumes "getComments e w pid = (r, w')" and "cache_read_ok e" and "mc w k = Some b"
  shows "mc w' k = Some b"
proof (cases "mc w (getCommentsCacheKey pid)")
  case None
  with assms(3) have "k \<noteq> getCommentsCacheKey pid" by auto
  with assms None show ?thesis
    by (auto simp: getComments_def mcGet_def selectComments_def marshalComments_def mcSet_def
        countQuery_def Let_def split: if_splits)
next
  case (Some b')
  with assms show ?thesis
    by (auto simp: getComments_def mcGet_def Let_def split: sum.splits)
qed

lemma getUsers_keeps_comment_keys:
  assumes "getUsers e w uids = (r, w')"
  shows "mc w' (getCommentsCacheKey pid) = mc w (getCommentsCacheKey pid)"
proof -
  have sm: "\<And>w0 rows users r w'. storeMisses e w0 rows users = (r, w') \<Longrightarrow>
      mc w' (getCommentsCacheKey pid) = mc w0 (getCommentsCacheKey pid)"
    by (rule storeMisses_other_keys) simp_all
  have cq: "mc (countQuery w) = mc w" by (simp add: countQuery_def)
  from assms show ?thesis
    by (auto simp: getUsers_def selectUsersIn_def Let_def cq
        split: sum.splits prod.splits if_splits dest!: sm)
qed

lemma makePostsLoop_comments:
  assumes "cache_read_ok e"
      and "makePostsLoop e w results tok allc acc = (Inr out, w')"
      and "mc w (getCommentsCacheKey pid) = Some (CommentsJSON cs)"
      and "p' \<in> set out" and "Post.ID p' = pid"
  shows "p' \<in> set acc \<or>
     (CommentCount p' = int (length cs)
      \<and> map withoutUser (Comments p') =
          map withoutUser (if \<not> allc \<and> 3 < length cs then take 3 cs else cs))"
  using assms(2,3,4)
proof (induction results arbitrary: w acc)
  case Nil
  then show ?case by simp
next
  case (Cons p results)
  obtain rc w1 where gc: "getComments e w (Post.ID p) = (rc, w1)"
    by (cases "getComments e w (Post.ID p)")
  from Cons.prems(1) gc obtain allcs where rc: "rc = Inr allcs"
    by (cases rc) auto
  have m1: "mc w1 (getCommentsCacheKey pid) = Some (CommentsJSON cs)"
    using getComments_keeps_entries[OF gc assms(1) Cons.prems(2)] .
  let ?comments = "if \<not> allc \<and> 3 < int (length allcs) then take 3 allcs else allcs"
  let ?uids = "Post.UserID p # map Comment.UserID ?comments"
  obtain ru w2 where gu: "getUsers e w1 ?uids = (ru, w2)"
    by (cases "getUsers e w1 ?uids")
  from Cons.prems(1) gc rc gu obtain users where ru: "ru = Inr users"
    by (cases ru) (auto simp: Let_def)
  have m2: "mc w2 (getCommentsCacheKey pid) = Some (CommentsJSON cs)"
    using getUsers_keeps_comment_keys[OF gu, of pid] m1 by simp
  let ?lookup = "\<lambda>uid. case users uid of None \<Rightarrow> zeroUser | Some u \<Rightarrow> u"
  let ?p' = "p\<lparr>CommentCount := int (length allcs),
      Comments := map (\<lambda>c. c\<lparr>Comment.User := ?lookup (Comment.UserID c)\<rparr>) ?comments,
      Post.User := ?lookup (Post.UserID p), CSRFToken := tok\<rparr>"
  let ?acc' = "if DelFlg (Post.User ?p') = 0 then acc @ [?p'] else acc"
  have step: "makePostsLoop e w (p # results) tok allc acc =
      (if postsPerPage \<le> length ?acc' then (Inr ?acc', w2)
       else makePostsLoop e w2 results tok allc ?acc')"
    using gc rc gu ru by (simp add: Let_def)
  have new: "Post.ID p = pid \<Longrightarrow>
      CommentCount ?p' = int (length cs)
      \<and> map withoutUser (Comments ?p') =
          map withoutUser (if \<not> allc \<and> 3 < length cs then take 3 cs else cs)"
  proof -
    assume "Post.ID p = pid"
    with gc rc Cons.prems(2) assms(1) have "allcs = cs"
      by (simp add: getComments_hit)
    then show ?thesis
      by (simp add: withoutUser_def comp_def)
  qed
  have in_acc': "p' \<in> set ?acc' \<Longrightarrow> ?case"
    using new assms(5) by (auto split: if_splits)
  show ?case
  proof (cases "postsPerPage \<le> length ?acc'")
    case True
    with step Cons.prems(1) have "out = ?acc'" by simp
    with Cons.prems(3) in_acc' show ?thesis by simp
  next
    case False
    with step Cons.prems(1) have "makePostsLoop e w2 results tok allc ?acc' = (Inr out, w')"
      by simp
    from Cons.IH[OF this m2 Cons.prems(3)] in_acc' show ?thesis by blast
  qed
qed

lemma withoutUser_ID [simp]: "Comment.ID (withoutUser c) = Comment.ID c"
  by (simp add: withoutUser_def)

text \<open>
  Claim C3, as amended. For a candidate post whose cached comment list has more than
  three entries and that is in the result of \<open>makePosts\<close>: the comment count is the
  length of the whole list; without \<open>allComments\<close> the attached comments are the first
  three entries of the list, which are the three oldest when the list is in ascending
  order of creation time; with \<open>allComments\<close> they are all entries. The attached comments
  differ from the cached ones in the author record only.
\<close>

theorem makePosts_attaches_first_three:
  assumes "cache_read_ok e"
      and "makePosts e w results tok allc = (Inr out, w')"
      and "mc w (getCommentsCacheKey pid) = Some (CommentsJSON cs)" and "3 < length cs"
      and "p' \<in> set out" and "Post.ID p' = pid"
  shows "CommentCount p' = int (length cs)
     \<and> map withoutUser (Comments p') = map withoutUser (if allc then cs else take 3 cs)
     \<and> (sorted (map Comment.CreatedAt cs) \<longrightarrow>
          (\<forall>a\<in>set (take 3 cs). \<forall>b\<in>set (drop 3 cs). Comment.CreatedAt a \<le> Comment.CreatedAt b))"
proof -
  from assms(2) have "makePostsLoop e w results tok allc [] = (Inr out, w')"
    by (simp add: makePosts_def)
  from makePostsLoop_comments[OF assms(1) this assms(3) assms(5) assms(6)] assms(4)
  have 1: "CommentCount p' = int (length cs)
     \<and> map withoutUser (Comments p') = map withoutUser (if allc then cs else take 3 cs)"
    by auto
  have 2: "sorted (map Comment.CreatedAt cs) \<longrightarrow>
          (\<forall>a\<in>set (take 3 cs). \<forall>b\<in>set (drop 3 cs). Comment.CreatedAt a \<le> Comment.CreatedAt b)"
  proof
    assume "sorted (map Comment.CreatedAt cs)"
    then have "sorted (map Comment.CreatedAt (take 3 cs @ drop 3 cs))"
      by simp
    then show "\<forall>a\<in>set (take 3 cs). \<forall>b\<in>set (drop 3 cs). Comment.CreatedAt a \<le> Comment.CreatedAt b"
      unfolding map_append sorted_append by auto
  qed
  from 1 2 show ?thesis by blast
qed

lemmas makePosts_defs = makePosts_def getComments_def getUsers_def mcGet_def mcGetMulti_def
  selectUsersIn_def marshalUser_def mcSet_def countQuery_def Let_def postsPerPage_def
  worldFour_def world0_def env_ok_def samplePost_def zeroUser_def

text \<open>
  The claim as stated fails: of four cached comments with the ids 1 to 4 in ascending
  order of creation time, the comments 1, 2, 3 are attached, and the three most recent
  ones are 2, 3, 4.
\<close>

theorem makePosts_most_recent_counterexample:
  "map_sum id (map (map Comment.ID \<circ> Comments))
     (fst (makePosts env_ok worldFour [samplePost 5 1 50] [] False)) = Inr [[1, 2, 3]]
   \<and> mc worldFour (getCommentsCacheKey 5) = Some (CommentsJSON fourComments)
   \<and> map Comment.ID (mostRecent 3 fourComments) = [2, 3, 4]"
  by (simp add: makePosts_defs fourComments_def sampleComment_def sampleUser_def mostRecent_def)

theorem makePosts_attaches_first_three_witness:
  "map_sum id (map (map Comment.ID \<circ> Comments))
     (fst (makePosts env_ok worldFour [samplePost 5 1 50] [] False)) = Inr [[1, 2, 3]]
   \<and> map_sum id (map (map Comment.ID \<circ> Comments))
     (fst (makePosts env_ok worldFour [samplePost 5 1 50] [] True)) = Inr [[1, 2, 3, 4]]"
proof -
  have r: "cache_read_ok env_ok"
    by (simp add: env_ok_def)
  have m: "mc worldFour (getCommentsCacheKey 5) = Some (CommentsJSON fourComments)"
    by (simp add: worldFour_def world0_def)
  have l: "3 < length fourComments"
    by (simp add: fourComments_def)
  have ids: "map Comment.ID fourComments = [1, 2, 3, 4]"
    by (simp add: fourComments_def sampleComment_def)
  have idw: "\<And>xs ys. map withoutUser xs = map withoutUser ys \<Longrightarrow> map Comment.ID xs = map Comment.ID ys"
  proof -
    fix xs ys assume "map withoutUser xs = map withoutUser ys"
    then have "map Comment.ID (map withoutUser xs) = map Comment.ID (map withoutUser ys)"
      by simp
    then show "map Comment.ID xs = map Comment.ID ys"
      by (simp add: comp_def)
  qed
  have "\<exists>p' w'. makePosts env_ok worldFour [samplePost 5 1 50] [] False = (Inr [p'], w')
      \<and> Post.ID p' = 5"
    by (simp add: makePosts_defs fourComments_def sampleComment_def sampleUser_def)
  then obtain p1 w1 where f: "makePosts env_ok worldFour [samplePost 5 1 50] [] False = (Inr [p1], w1)"
    and f5: "Post.ID p1 = 5"
    by blast
  have "p1 \<in> set [p1]" by simp
  from makePosts_attaches_first_three [OF r f m l this f5]
  have "map withoutUser (Comments p1) = map withoutUser (take 3 fourComments)"
    by simp
  then have "map Comment.ID (Comments p1) = map Comment.ID (take 3 fourComments)"
    by (rule idw)
  then have 1: "map Comment.ID (Comments p1) = [1, 2, 3]"
    by (simp add: fourComments_def sampleComment_def)
  have "\<exists>p' w'. makePosts env_ok worldFour [samplePost 5 1 50] [] True = (Inr [p'], w')
      \<and> Post.ID p' = 5"
    by (simp add: makePosts_defs fourComments_def sampleComment_def sampleUser_def)
  then obtain p2 w2 where t: "makePosts env_ok worldFour [samplePost 5 1 50] [] True = (Inr [p2], w2)"
    and t5: "Post.ID p2 = 5"
    by blast
  have "p2 \<in> set [p2]" by simp
  from makePosts_attaches_first_three [OF r t m l this t5]
  have "map withoutUser (Comments p2) = map withoutUser fourComments"
    by simp
  then have "map Comment.ID (Comments p2) = map Comment.ID fourComments"
    by (rule idw)
  then have 2: "map Comment.ID (Comments p2) = [1, 2, 3, 4]"
    by (simp add: ids)
  from f t 1 2 show ?thesis
    by simp
qed

end
